theory Spec2Isabelle
  imports Complex_Main "HOL-Library.Sublist" "HOL-Library.Log_Nat"
begin

section \<open>Panel filtering (content.js, startBackupProcess)\<close>

text \<open>A discovered navigation tab: its structural class and its display label.\<close>

record tab =
  cls :: string
  label :: string

text \<open>The options record sent with the runExtraction signal. The optional field
  \<open>selectedTabs\<close> is \<open>None\<close> when the property is absent.\<close>

record options =
  screenshots :: bool
  cli :: bool
  profiles :: bool
  selectedTabs :: "string list option"

definition BLACKLIST :: "string list" where
  "BLACKLIST = [''tab_landing'', ''tab_firmware_flasher'', ''tab_presets'']"

text \<open>\<open>String.prototype.includes\<close>: the argument occurs as a contiguous substring.\<close>

fun str_includes :: "string \<Rightarrow> string \<Rightarrow> bool" where
  "str_includes [] b = (b = [])"
| "str_includes (c # s) b = (prefix b (c # s) \<or> str_includes s b)"

text \<open>The callback of \<open>tabs.filter\<close>, with its four early returns in source order.\<close>

definition keepTab :: "options \<Rightarrow> tab \<Rightarrow> bool" where
  "keepTab opts t =
     (if list_ex (\<lambda>b. str_includes (cls t) b) BLACKLIST then False
      else if cls t = ''tab_cli'' \<and> \<not> cli opts then False
      else if \<not> screenshots opts \<and> cls t \<noteq> ''tab_cli'' then False
      else if (case selectedTabs opts of None \<Rightarrow> False
               | Some sel \<Rightarrow> length sel > 0 \<and> cls t \<noteq> ''tab_cli'' \<and> cls t \<notin> set sel)
           then False
      else True)"

definition filteredTabs :: "options \<Rightarrow> tab list \<Rightarrow> tab list" where
  "filteredTabs opts tabs = filter (keepTab opts) tabs"

text \<open>\<open>const totalTabs = filteredTabs.length\<close>, the total handed to \<open>setProgress\<close>.\<close>

definition totalTabs :: "options \<Rightarrow> tab list \<Rightarrow> nat" where
  "totalTabs opts tabs = length (filteredTabs opts tabs)"

text \<open>The inclusion predicate in the words of the specification: the class is not a
  member of the blacklist; the console panel needs console capture; every other panel
  needs screenshot capture and, when a selection was supplied, membership in it.\<close>

definition spec_included :: "options \<Rightarrow> tab \<Rightarrow> bool" where
  "spec_included opts t =
     (cls t \<notin> set BLACKLIST \<and>
      (if cls t = ''tab_cli'' then cli opts
       else screenshots opts \<and>
            (case selectedTabs opts of None \<Rightarrow> True
             | Some sel \<Rightarrow> sel = [] \<or> cls t \<in> set sel)))"

text \<open>The predicate the code implements: as above, but a class is rejected as soon as it
  contains a blacklisted name as a substring (\<open>str_includes_sublist\<close> below).\<close>

definition code_included :: "options \<Rightarrow> tab \<Rightarrow> bool" where
  "code_included opts t =
     ((\<forall>b \<in> set BLACKLIST. \<not> str_includes (cls t) b) \<and>
      (if cls t = ''tab_cli'' then cli opts
       else screenshots opts \<and>
            (case selectedTabs opts of None \<Rightarrow> True
             | Some sel \<Rightarrow> sel = [] \<or> cls t \<in> set sel)))"


section \<open>The content script's world (content.js)\<close>

text \<open>The content script runs as one sequential flow that suspends only in \<open>sleep\<close> and
  in calls to the page and the background worker. The model threads an explicit
  \<open>state\<close> through every function and reads everything the script observes but does not
  control from an \<open>env\<close>, indexed by the time of the observation (milliseconds, the
  value of \<open>Date.now()\<close>). Only \<open>sleep\<close> advances the clock.\<close>

type_synonym dataUrl = string

datatype capture_response =
    LastError string        \<comment> \<open>\<open>chrome.runtime.lastError\<close> is set\<close>
  | NoResponse              \<comment> \<open>\<open>res\<close> is undefined\<close>
  | ResError string         \<comment> \<open>\<open>{ error }\<close>, including the worker's 10 s timeout\<close>
  | ResDataUrl dataUrl      \<comment> \<open>\<open>{ dataUrl }\<close>\<close>

text \<open>What \<open>isConnected\<close> queries: the BEM button and the classic button (absent, or
  present with or without the class \<open>active\<close>), whether some element matches the
  indicator selector, and the \<open>offsetHeight\<close> of each navigation item.\<close>

record conn_dom =
  bemBtn :: "bool option"
  classicBtn :: "bool option"
  indicator :: bool
  navTabs :: "nat list"

text \<open>A \<open>select\<close> element: the selector \<open>getSelectSelector\<close> builds for it (if any),
  the values of its options, and its current value.\<close>

record select_el =
  selector :: "string option"
  soptions :: "string list"
  svalue :: string

text \<open>A decoded bitmap (an \<open>Image\<close> or a canvas): its width and its pixel rows, top
  row first. The height is the number of rows.\<close>

type_synonym pixel = nat

record image =
  iwidth :: nat
  irows :: "pixel list list"

record progress =
  current :: nat
  total :: nat

text \<open>Messages sent to the background worker with \<open>chrome.runtime.sendMessage\<close>. The
  keepalive ping and the \<open>cliExecute\<close> debug, read and clear operations are not
  recorded.\<close>

datatype message =
    SetStatus string progress
  | SaveFile string string string bool    \<comment> \<open>folderName, fileName, content, isBase64\<close>
  | CaptureTab
  | SetSelectValue string string          \<comment> \<open>selector, value\<close>
  | CliSend string
  | ExtractionComplete
  | ExtractionError string

record env =
  abortAt :: "nat option"
    \<comment> \<open>when the \<open>abortBackup\<close> message sets \<open>abortRequested\<close>, if ever\<close>
  captureTab :: "nat \<Rightarrow> capture_response"
    \<comment> \<open>the worker's answer to a \<open>captureTab\<close> request made at that time\<close>
  connDom :: "nat \<Rightarrow> conn_dom"
  layout :: "nat \<Rightarrow> nat \<times> nat"
    \<comment> \<open>\<open>scrollHeight\<close> and \<open>clientHeight\<close> of the scrollable container\<close>
  subTabs :: "nat \<Rightarrow> string list"
    \<comment> \<open>\<open>innerText.trim()\<close> of the sub-tabs \<open>findVisibleSubTabs\<close> returns\<close>
  pidSelect :: "nat option"
    \<comment> \<open>\<open>findSelect('profile', 'pid')\<close>, a handle into \<open>selects\<close>\<close>
  rateSelect :: "nat option"
    \<comment> \<open>\<open>findSelect('rate_profile', 'rate')\<close>\<close>
  accepts :: "nat \<Rightarrow> string \<Rightarrow> nat \<Rightarrow> bool"
    \<comment> \<open>whether setting that select to that value at that time takes effect\<close>
  terminal :: "nat \<Rightarrow> string"
    \<comment> \<open>what \<open>cliRead\<close> returns at that time\<close>
  cliSendOk :: "nat \<Rightarrow> bool"
    \<comment> \<open>whether \<open>cliSend\<close> finds a way to send at that time\<close>
  hasClearBtn :: "nat \<Rightarrow> bool"
  expertUnchecked :: bool
    \<comment> \<open>the expert-mode checkbox exists and is not checked\<close>
  navigation :: "nat \<Rightarrow> tab list"
    \<comment> \<open>class and label of the visible navigation tabs\<close>
  hasLink :: "string \<Rightarrow> nat \<Rightarrow> bool"
    \<comment> \<open>\<open>li.cls > a.tabicon\<close> exists\<close>
  innerWidth :: nat
  decode :: "dataUrl \<Rightarrow> image option"
    \<comment> \<open>loading a data URL into an \<open>Image\<close>; \<open>None\<close> is \<open>onerror\<close>\<close>
  toDataURL :: "image \<Rightarrow> dataUrl"
    \<comment> \<open>\<open>canvas.toDataURL('image/jpeg', 0.85)\<close>\<close>

text \<open>Elements the script clicks.\<close>

datatype click = ExpertMode | TabLink string | SubTab nat | ClearButton

record state =
  clock :: nat
  lastCaptureTime :: nat
  progressState :: progress
  outbox :: "message list"              \<comment> \<open>oldest first\<close>
  clicked :: "click list"               \<comment> \<open>oldest first\<close>
  selects :: "nat \<Rightarrow> select_el"
  scrollTop :: nat
  stickyHidden :: bool
  keepalive :: bool

text \<open>The outcome of an \<open>async\<close> function: it returns a value or throws an
  \<open>Error\<close> with a message, and in both cases leaves a state behind.\<close>

datatype 'a res = Ok 'a state | Threw string state

text \<open>Sequencing two \<open>await\<close>ed calls: an exception of the first skips the second. The
  outer \<open>option\<close> is \<open>None\<close> when a call does not return at all.\<close>

definition bindR :: "'a res option \<Rightarrow> ('a \<Rightarrow> state \<Rightarrow> 'b res option) \<Rightarrow> 'b res option" where
  "bindR m f =
     (case m of None \<Rightarrow> None
      | Some (Threw msg s) \<Rightarrow> Some (Threw msg s)
      | Some (Ok x s) \<Rightarrow> f x s)"

lemma bindR_cong [fundef_cong]:
  "m = m' \<Longrightarrow> (\<And>x s. m' = Some (Ok x s) \<Longrightarrow> f x s = f' x s) \<Longrightarrow> bindR m f = bindR m' f'"
  by (auto simp: bindR_def split: option.splits res.splits)

text \<open>\<open>try { ... } finally { cleanup }\<close>: the cleanup runs on both exits.\<close>

definition finallyR :: "'a res option \<Rightarrow> (state \<Rightarrow> state) \<Rightarrow> 'a res option" where
  "finallyR m cleanup =
     (case m of None \<Rightarrow> None
      | Some (Threw msg s) \<Rightarrow> Some (Threw msg (cleanup s))
      | Some (Ok x s) \<Rightarrow> Some (Ok x (cleanup s)))"

text \<open>\<open>String(n)\<close> for a non-negative integer, and \<open>padStart(2, '0')\<close>.\<close>

definition digit :: "nat \<Rightarrow> char" where
  "digit n = char_of (48 + n)"

function String :: "nat \<Rightarrow> string" where
  "String n = (if n < 10 then [digit n] else String (n div 10) @ [digit (n mod 10)])"
  by pat_completeness auto
termination
  by (relation "measure id") auto

declare String.simps [simp del]

definition padStart2 :: "string \<Rightarrow> string" where
  "padStart2 str = replicate (2 - length str) CHR ''0'' @ str"

definition sleep :: "nat \<Rightarrow> state \<Rightarrow> state" where
  "sleep ms s = s\<lparr>clock := clock s + ms\<rparr>"

definition send :: "message \<Rightarrow> state \<Rightarrow> state" where
  "send m s = s\<lparr>outbox := outbox s @ [m]\<rparr>"

definition click :: "click \<Rightarrow> state \<Rightarrow> state" where
  "click c s = s\<lparr>clicked := clicked s @ [c]\<rparr>"

definition abortRequested :: "env \<Rightarrow> state \<Rightarrow> bool" where
  "abortRequested e s = (case abortAt e of None \<Rightarrow> False | Some t \<Rightarrow> t \<le> clock s)"

definition checkAbort :: "env \<Rightarrow> state \<Rightarrow> unit res" where
  "checkAbort e s =
     (if abortRequested e s then Threw ''Backup stopped by user.'' s else Ok () s)"

text \<open>\<open>isConnected\<close>: \<open>Some True\<close>, \<open>Some False\<close>, or \<open>None\<close> for \<open>null\<close>.\<close>

definition isConnected :: "conn_dom \<Rightarrow> bool option" where
  "isConnected d =
     (case bemBtn d of Some active \<Rightarrow> Some active
      | None \<Rightarrow>
     (case classicBtn d of Some active \<Rightarrow> Some active
      | None \<Rightarrow>
      if indicator d then Some True
      else if length (navTabs d) > 0 \<and> list_ex (\<lambda>h. h > 0) (navTabs d) then Some True
      else None))"

definition setStatus :: "string \<Rightarrow> state \<Rightarrow> state" where
  "setStatus msg s = send (SetStatus msg (progressState s)) s"

definition setProgress :: "nat \<Rightarrow> nat \<Rightarrow> state \<Rightarrow> state" where
  "setProgress c t s = s\<lparr>progressState := \<lparr>current = c, total = t\<rparr>\<rparr>"

definition startKeepalive :: "state \<Rightarrow> state" where
  "startKeepalive s = s\<lparr>keepalive := True\<rparr>"

definition stopKeepalive :: "state \<Rightarrow> state" where
  "stopKeepalive s = s\<lparr>keepalive := False\<rparr>"

subsection \<open>Screenshot capture with rate limiting and retry\<close>

definition MIN_CAPTURE_INTERVAL :: nat where
  "MIN_CAPTURE_INTERVAL = 1100"

text \<open>The promise of one attempt: \<open>null\<close> on \<open>lastError\<close>, a missing response or an
  \<open>error\<close> field, otherwise \<open>res.dataUrl\<close>; the caller then tests the result for
  truthiness, and the empty string is falsy.\<close>

definition attemptResult :: "capture_response \<Rightarrow> dataUrl option" where
  "attemptResult r =
     (case r of ResDataUrl u \<Rightarrow> (if u = [] then None else Some u) | _ \<Rightarrow> None)"

text \<open>The \<open>for\<close> loop of \<open>requestScreenshot\<close>, entered with the attempt counter.\<close>

function captureAttempts :: "env \<Rightarrow> nat \<Rightarrow> state \<Rightarrow> dataUrl option \<times> state" where
  "captureAttempts e attempt s =
     (if attempt < 3 then
        (let s1 = send CaptureTab (s\<lparr>lastCaptureTime := clock s\<rparr>) in
         case attemptResult (captureTab e (clock s)) of
           Some u \<Rightarrow> (Some u, s1)
         | None \<Rightarrow> captureAttempts e (attempt + 1) (sleep (1500 * (attempt + 1)) s1))
      else (None, s))"
  by pat_completeness auto
termination
  by (relation "measure (\<lambda>(e, attempt, s). 3 - attempt)") auto

declare captureAttempts.simps [simp del]

text \<open>The first three lines of \<open>requestScreenshot\<close>: wait until the minimum interval
  since the last capture has passed.\<close>

definition enforceInterval :: "state \<Rightarrow> state" where
  "enforceInterval s =
     (let now = clock s;
          wait = int MIN_CAPTURE_INTERVAL - (int now - int (lastCaptureTime s))
      in if wait > 0 then sleep (nat wait) s else s)"

definition requestScreenshot :: "env \<Rightarrow> state \<Rightarrow> dataUrl option \<times> state" where
  "requestScreenshot e s = captureAttempts e 0 (enforceInterval s)"

definition saveToZip :: "string \<Rightarrow> string \<Rightarrow> string \<Rightarrow> bool \<Rightarrow> state \<Rightarrow> state" where
  "saveToZip folderName fileName content isBase64 s =
     send (SaveFile folderName fileName content isBase64) s"

subsection \<open>The stitcher\<close>

definition height :: "image \<Rightarrow> nat" where
  "height img = length (irows img)"

text \<open>A bitmap is well formed when every row has the bitmap's width.\<close>

definition wf_image :: "image \<Rightarrow> bool" where
  "wf_image img = list_all (\<lambda>r. length r = iwidth img) (irows img)"

text \<open>JavaScript numbers are IEEE 754 doubles. A finite double is modelled by the
  rational number it denotes, and an arithmetic operation yields the exact result rounded
  to the nearest double, ties to the even significand: 53 significant bits, and a fixed
  spacing of \<open>2^-1074\<close> below \<open>2^-1022\<close>.\<close>

definition pow2 :: "int \<Rightarrow> rat" where
  "pow2 k = (if 0 \<le> k then 2 ^ nat k else 1 / 2 ^ nat (- k))"

text \<open>The binary exponent of a positive rational \<open>x\<close>: the \<open>k\<close> with
  \<open>2^k \<le> x < 2^(k+1)\<close>, found from the bit lengths of numerator and denominator.\<close>

definition binExp :: "rat \<Rightarrow> int" where
  "binExp x =
     (let k = bitlen (fst (quotient_of x)) - bitlen (snd (quotient_of x))
      in if pow2 k \<le> x then k else k - 1)"

definition roundEven :: "rat \<Rightarrow> int" where
  "roundEven x =
     (let f = \<lfloor>x\<rfloor>; r = x - of_int f
      in if r < 1 / 2 then f
         else if 1 / 2 < r then f + 1
         else if even f then f else f + 1)"

definition roundDouble :: "rat \<Rightarrow> rat" where
  "roundDouble x =
     (if x = 0 then 0
      else
        (let ulp = pow2 (max (binExp \<bar>x\<bar>) (- 1022) - 52)
         in sgn x * of_int (roundEven (\<bar>x\<bar> / ulp)) * ulp))"

text \<open>The largest finite double is \<open>(2^53 - 1) * 2^971\<close>: an exact result whose rounding
  has a binary exponent above 1023 gives \<open>Infinity\<close> or \<open>-Infinity\<close>.\<close>

definition overflows :: "rat \<Rightarrow> bool" where
  "overflows x = (1023 < binExp \<bar>roundDouble x\<bar>)"

text \<open>\<open>Math.round\<close> of a finite double: the nearest integer, ties towards
  \<open>+\<infinity>\<close>. It is exact on the value of its argument.\<close>

definition jsRound :: "rat \<Rightarrow> int" where
  "jsRound x = \<lfloor>x + 1 / 2\<rfloor>"

text \<open>Assigning a number to \<open>canvas.height\<close>: a negative value resets the dimension
  to its default, 150. The size limits of particular browsers are not modelled.\<close>

definition canvasDim :: "int \<Rightarrow> nat" where
  "canvasDim h = (if h < 0 then 150 else nat h)"

text \<open>A fresh canvas is transparent black.\<close>

definition newCanvas :: "nat \<Rightarrow> nat \<Rightarrow> image" where
  "newCanvas w h = \<lparr>iwidth = w, irows = replicate h (replicate w 0)\<rparr>"

text \<open>Copying one source row over a canvas row of width \<open>cw\<close>, from column 0: the
  columns the source does not have keep the canvas's pixels.\<close>

definition blitRow :: "nat \<Rightarrow> pixel list \<Rightarrow> pixel list \<Rightarrow> pixel list" where
  "blitRow cw src dst = take cw src @ drop (length (take cw src)) dst"

text \<open>\<open>ctx.drawImage(img, 0, sy, width, sh, 0, dy, width, sh)\<close> with \<open>width\<close> the
  canvas width: row \<open>sy + k\<close> of the source goes to row \<open>dy + k\<close> of the canvas, for
  the rows that exist on both sides (the rectangles are clipped, nothing is scaled). A
  negative \<open>sh\<close> names the rectangle by its bottom edge.\<close>

definition drawImageAt :: "image \<Rightarrow> int \<Rightarrow> int \<Rightarrow> int \<Rightarrow> image \<Rightarrow> image" where
  "drawImageAt src sy sh dy cv =
     (let slo = min sy (sy + sh); dlo = min dy (dy + sh); n = \<bar>sh\<bar> in
      cv\<lparr>irows :=
           map (\<lambda>j. let k = int j - dlo in
                     if 0 \<le> k \<and> k < n \<and> 0 \<le> slo + k \<and> slo + k < int (height src)
                     then blitRow (iwidth cv) (irows src ! nat (slo + k)) (irows cv ! j)
                     else irows cv ! j)
               [0..<height cv]\<rparr>)"

text \<open>\<open>ctx.drawImage(img, 0, 0)\<close>: the whole image at the top left corner.\<close>

definition drawImage :: "image \<Rightarrow> image \<Rightarrow> image" where
  "drawImage img cv = drawImageAt img 0 (int (height img)) 0 cv"

text \<open>\<open>const scale = width / window.innerWidth\<close>, a division of two integers in
  doubles (\<open>img.width\<close> is an unsigned long and \<open>innerWidth\<close> a long, so the quotient is
  finite when \<open>innerWidth\<close> is not 0).\<close>

definition scaleOf :: "nat \<Rightarrow> nat \<Rightarrow> rat" where
  "scaleOf width innerW = roundDouble (rat_of_nat width / rat_of_nat innerW)"

text \<open>\<open>Math.round(scrollDeltas[i] * scale)\<close>: the product is a double product. A scroll
  delta is a double, the difference of two values of \<open>scrollTop\<close>.\<close>

definition newPx :: "rat \<Rightarrow> rat \<Rightarrow> int" where
  "newPx scale d = jsRound (roundDouble (d * scale))"

text \<open>The second \<open>for\<close> loop of \<open>stitchScreenshots\<close>, entered at index \<open>i\<close> with the
  remaining deltas \<open>scrollDeltas[i..]\<close>. Reading \<open>images[i + 1]\<close> past the end gives
  \<open>undefined\<close>, \<open>drawImage\<close> throws, and the \<open>catch\<close> returns \<open>null\<close>.\<close>

fun drawParts :: "image list \<Rightarrow> nat \<Rightarrow> rat \<Rightarrow> rat list \<Rightarrow> nat \<Rightarrow> int \<Rightarrow> image \<Rightarrow> image option" where
  "drawParts images imgHeight scale [] i y cv = Some cv"
| "drawParts images imgHeight scale (d # ds) i y cv =
     (if i + 1 < length images then
        (let px = newPx scale d;
             srcY = int imgHeight - px
         in drawParts images imgHeight scale ds (i + 1) (y + px)
              (drawImageAt (images ! (i + 1)) srcY px y cv))
      else None)"

text \<open>\<open>stitchScreenshots\<close> between decoding and encoding. With \<open>window.innerWidth = 0\<close>
  the scale is infinite or NaN, and a product that overflows is infinite: the total height
  is then not finite, \<open>canvas.height\<close> becomes 0, and a \<open>drawImage\<close> with a non-finite
  argument returns without drawing, so the canvas stays empty. Row counts are integers far
  below \<open>2^53\<close>, where sums of doubles are exact.\<close>

definition stitchCanvas :: "nat \<Rightarrow> image list \<Rightarrow> rat list \<Rightarrow> image option" where
  "stitchCanvas innerW images scrollDeltas =
     (case images of
        [] \<Rightarrow> None
      | img0 # _ \<Rightarrow>
          (let width = iwidth img0;
               imgHeight = height img0;
               scale = scaleOf width innerW
           in if scrollDeltas \<noteq> []
                 \<and> (innerW = 0 \<or> list_ex (\<lambda>d. overflows (d * scale)) scrollDeltas) then
                (if length scrollDeltas < length images then Some (newCanvas width 0)
                 else None)
              else
                (let totalHeight = int imgHeight + sum_list (map (newPx scale) scrollDeltas);
                     canvas = newCanvas width (canvasDim totalHeight)
                 in drawParts images imgHeight scale scrollDeltas 0 (int imgHeight)
                      (drawImage img0 canvas))))"

text \<open>\<open>stitchScreenshots\<close>: a failed decode rejects \<open>Promise.all\<close> and the \<open>catch\<close>
  returns \<open>null\<close>.\<close>

definition stitchScreenshots :: "env \<Rightarrow> dataUrl list \<Rightarrow> rat list \<Rightarrow> dataUrl option" where
  "stitchScreenshots e dataUrls scrollDeltas =
     (let decoded = map (decode e) dataUrls in
      if list_ex (\<lambda>d. d = None) decoded then None
      else map_option (toDataURL e)
             (stitchCanvas (innerWidth e) (map the decoded) scrollDeltas))"

text \<open>The canvas row at which the part drawn for delta \<open>m\<close> starts: the value of
  \<open>y\<close> when the loop reaches index \<open>m\<close>.\<close>

definition partTop :: "nat \<Rightarrow> rat \<Rightarrow> rat list \<Rightarrow> nat \<Rightarrow> int" where
  "partTop H scale ds m = int H + sum_list (map (newPx scale) (take m ds))"

text \<open>The composite in the words of the specification: the first image in full, then,
  for each later image, its bottom \<open>round(delta * scale)\<close> rows, each block directly
  below the one before.\<close>

definition bottomRows :: "nat \<Rightarrow> image \<Rightarrow> pixel list list" where
  "bottomRows n img = drop (height img - n) (irows img)"

definition spec_stitch :: "nat \<Rightarrow> image list \<Rightarrow> rat list \<Rightarrow> image" where
  "spec_stitch innerW images scrollDeltas =
     (let scale = scaleOf (iwidth (hd images)) innerW
      in \<lparr>iwidth = iwidth (hd images),
          irows = irows (hd images)
                  @ concat (map2 (\<lambda>img d. bottomRows (nat (newPx scale d)) img)
                              (tl images) scrollDeltas)\<rparr>)"

subsection \<open>Scroll, capture and save\<close>

definition hideStickyBottomElements :: "state \<Rightarrow> state" where
  "hideStickyBottomElements s = s\<lparr>stickyHidden := True\<rparr>"

definition restoreStickyBottomElements :: "state \<Rightarrow> state" where
  "restoreStickyBottomElements s = s\<lparr>stickyHidden := False\<rparr>"

text \<open>The \<open>while (true)\<close> loop of \<open>captureAndSave\<close>. After each capture the loop
  reads the container's \<open>scrollHeight\<close> and \<open>clientHeight\<close> anew; assigning
  \<open>scrollTop\<close> is clamped by the browser to \<open>scrollHeight - clientHeight\<close>. The loop
  need not end (a container of client height 0 never advances), so the result is
  \<open>None\<close> when it does not.\<close>

partial_function (option) captureLoop ::
  "env \<Rightarrow> string \<Rightarrow> dataUrl list \<Rightarrow> nat list \<Rightarrow> state
   \<Rightarrow> (dataUrl list \<times> nat list) res option" where
  "captureLoop e baseFileName parts scrollDeltas s =
     (case checkAbort e s of
        Threw msg s' \<Rightarrow> Some (Threw msg s')
      | Ok _ _ \<Rightarrow>
     (case requestScreenshot e s of
        (None, s1) \<Rightarrow>
          Some (Ok (parts, scrollDeltas)
                  (setStatus (''WARNING: Screenshot failed for '' @ baseFileName) s1))
      | (Some dataUrl, s1) \<Rightarrow>
          (let parts' = parts @ [dataUrl];
               scrollHeight = fst (layout e (clock s1));
               clientHeight = snd (layout e (clock s1))
           in
           if int (scrollTop s1) + int clientHeight \<ge> int scrollHeight - 5
           then Some (Ok (parts', scrollDeltas) s1)
           else
             (let prevScrollTop = scrollTop s1;
                  s2 = s1\<lparr>scrollTop := min (prevScrollTop + clientHeight)
                                           (scrollHeight - clientHeight)\<rparr>;
                  s3 = sleep 300 s2;
                  actualDelta = scrollTop s3 - prevScrollTop
              in captureLoop e baseFileName parts'
                   (scrollDeltas @ [actualDelta]) s3))))"

declare captureLoop.simps [code]

text \<open>The fallback loop that saves every part on its own.\<close>

fun saveEachPart :: "string \<Rightarrow> string \<Rightarrow> dataUrl list \<Rightarrow> nat \<Rightarrow> state \<Rightarrow> state" where
  "saveEachPart folderName baseFileName [] i s = s"
| "saveEachPart folderName baseFileName (part # rest) i s =
     saveEachPart folderName baseFileName rest (i + 1)
       (saveToZip folderName (baseFileName @ ''_part'' @ String (i + 1) @ ''.jpg'') part True s)"

text \<open>What \<open>captureAndSave\<close> does with the collected parts once the loop has ended.\<close>

definition saveParts ::
  "env \<Rightarrow> string \<Rightarrow> string \<Rightarrow> dataUrl list \<Rightarrow> nat list \<Rightarrow> state \<Rightarrow> state" where
  "saveParts e folderName baseFileName parts scrollDeltas s =
     (if length parts = 0 then s
      else if length parts = 1 then
        saveToZip folderName (baseFileName @ ''.jpg'') (parts ! 0) True s
      else
        (case stitchScreenshots e parts (map rat_of_nat scrollDeltas) of
           Some stitched \<Rightarrow>
             (if stitched \<noteq> [] then
                saveToZip folderName (baseFileName @ ''.jpg'') stitched True s
              else saveEachPart folderName baseFileName parts 0 s)
         | None \<Rightarrow> saveEachPart folderName baseFileName parts 0 s))"

definition captureAndSave :: "env \<Rightarrow> string \<Rightarrow> string \<Rightarrow> state \<Rightarrow> unit res option" where
  "captureAndSave e folderName baseFileName s =
     (let s0 = sleep 300 (s\<lparr>scrollTop := 0\<rparr>);
          scrollHeight = fst (layout e (clock s0));
          clientHeight = snd (layout e (clock s0));
          maxScroll = int scrollHeight - int clientHeight
      in if maxScroll \<le> 100 then
           (case requestScreenshot e s0 of
              (None, s1) \<Rightarrow>
                Some (Ok () (setStatus (''WARNING: Screenshot failed for '' @ baseFileName) s1))
            | (Some dataUrl, s1) \<Rightarrow>
                Some (Ok () (saveToZip folderName (baseFileName @ ''.jpg'') dataUrl True s1)))
         else
           finallyR
             (bindR (captureLoop e baseFileName [] []
                       (sleep 200 ((hideStickyBottomElements s0)\<lparr>scrollTop := 0\<rparr>)))
                (\<lambda>(parts, scrollDeltas) s3.
                   Some (Ok () (saveParts e folderName baseFileName parts scrollDeltas s3))))
             restoreStickyBottomElements)"

subsection \<open>Sub-tabs\<close>

text \<open>\<open>clickSubTab\<close>: the sub-tabs are queried again and the one at the index is
  clicked, if there is one.\<close>

definition clickSubTab :: "env \<Rightarrow> nat \<Rightarrow> state \<Rightarrow> bool \<times> state" where
  "clickSubTab e index s =
     (if length (subTabs e (clock s)) > index then (True, click (SubTab index) s)
      else (False, s))"

fun subTabLoop ::
  "env \<Rightarrow> string \<Rightarrow> string \<Rightarrow> string \<Rightarrow> string list \<Rightarrow> nat \<Rightarrow> nat \<Rightarrow> state \<Rightarrow> unit res option" where
  "subTabLoop e folder pfx lbl [] i subIdx s = Some (Ok () s)"
| "subTabLoop e folder pfx lbl (sub # rest) i subIdx s =
     (let s1 = setStatus (lbl @ '' > '' @ sub @ ''...'') s;
          s2 = sleep 1000 (click (SubTab i) s1)
      in bindR (captureAndSave e folder
                  (pfx @ ''_'' @ padStart2 (String subIdx) @ ''_SubTab'' @ String subIdx) s2)
           (\<lambda>_ s3. subTabLoop e folder pfx lbl rest (i + 1) (subIdx + 1) s3))"

definition captureTabWithSubTabs ::
  "env \<Rightarrow> string \<Rightarrow> string \<Rightarrow> string \<Rightarrow> string \<Rightarrow> state \<Rightarrow> unit res option" where
  "captureTabWithSubTabs e folder pfx englishName lbl s =
     (let subs = subTabs e (clock s) in
      if length subs > 1 then subTabLoop e folder pfx lbl subs 0 1 s
      else captureAndSave e folder (pfx @ ''_01_'' @ englishName)
             (setStatus (''Screenshot: '' @ lbl @ ''...'') s))"

subsection \<open>Select helpers\<close>

text \<open>The page's reaction to a request to set a select, observed when the script reads
  the select again half a second later: the device either took the value or the select
  shows what it showed before. The bridge (\<open>setSelectViaBridge\<close>, main world) and the
  fallback (assignment in the isolated world) differ only in the message sent.\<close>

definition applySet :: "env \<Rightarrow> nat \<Rightarrow> string \<Rightarrow> state \<Rightarrow> state" where
  "applySet e sel strValue s =
     (if accepts e sel strValue (clock s)
      then s\<lparr>selects := (selects s)(sel := (selects s sel)\<lparr>svalue := strValue\<rparr>)\<rparr>
      else s)"

text \<open>The \<open>for\<close> loop of \<open>setSelectValueVerified\<close>, entered with the attempt counter.\<close>

function setAttempts :: "env \<Rightarrow> nat \<Rightarrow> string \<Rightarrow> nat \<Rightarrow> nat \<Rightarrow> state \<Rightarrow> bool \<times> state" where
  "setAttempts e sel strValue retries attempt s =
     (if attempt \<le> retries then
        (let s1 = (case selector (selects s sel) of
                     Some q \<Rightarrow> send (SetSelectValue q strValue) s
                   | None \<Rightarrow> s);
             s2 = sleep 500 (applySet e sel strValue s1)
         in if svalue (selects s2 sel) = strValue then (True, s2)
            else setAttempts e sel strValue retries (attempt + 1) (sleep 500 s2))
      else (False, s))"
  by pat_completeness auto
termination
  by (relation "measure (\<lambda>(e, sel, strValue, retries, attempt, s). Suc retries - attempt)") auto

declare setAttempts.simps [simp del]

definition setSelectValueVerified :: "env \<Rightarrow> nat \<Rightarrow> string \<Rightarrow> state \<Rightarrow> bool \<times> state" where
  "setSelectValueVerified e sel v s = setAttempts e sel v 3 0 s"

subsection \<open>The PID tuning tab: cycling through the PID and rate profiles\<close>

fun pidLoop ::
  "env \<Rightarrow> string \<Rightarrow> string \<Rightarrow> nat \<Rightarrow> nat \<Rightarrow> nat list \<Rightarrow> state \<Rightarrow> unit res option" where
  "pidLoop e folder pfx pidSel pidCount [] s = Some (Ok () s)"
| "pidLoop e folder pfx pidSel pidCount (p # ps) s =
     (case checkAbort e s of
        Threw msg s' \<Rightarrow> Some (Threw msg s')
      | Ok _ _ \<Rightarrow>
        (let s1 = setStatus (''PID Profile '' @ String (p + 1) @ ''/'' @ String pidCount @ ''...'') s;
             targetVal = soptions (selects s1 pidSel) ! p;
             s2 = sleep 2500 (snd (setSelectValueVerified e pidSel targetVal s1));
             s3 = sleep 800 (snd (clickSubTab e 0 s2))
         in bindR (captureAndSave e folder (pfx @ ''_PID_Profile'' @ String (p + 1)) s3)
              (\<lambda>_ s4. pidLoop e folder pfx pidSel pidCount ps s4)))"

fun rateLoop ::
  "env \<Rightarrow> string \<Rightarrow> string \<Rightarrow> nat \<Rightarrow> nat \<Rightarrow> nat list \<Rightarrow> state \<Rightarrow> unit res option" where
  "rateLoop e folder pfx rateSel rateCount [] s = Some (Ok () s)"
| "rateLoop e folder pfx rateSel rateCount (r # rs) s =
     (case checkAbort e s of
        Threw msg s' \<Rightarrow> Some (Threw msg s')
      | Ok _ _ \<Rightarrow>
        (let s1 = setStatus (''Rate Profile '' @ String (r + 1) @ ''/'' @ String rateCount @ ''...'') s;
             targetVal = soptions (selects s1 rateSel) ! r;
             s2 = sleep 2500 (snd (setSelectValueVerified e rateSel targetVal s1));
             s3 = sleep 800 (snd (clickSubTab e 1 s2))
         in bindR (captureAndSave e folder (pfx @ ''_Rates_Profile'' @ String (r + 1)) s3)
              (\<lambda>_ s4. rateLoop e folder pfx rateSel rateCount rs s4)))"

text \<open>The block under \<open>Restore original profiles\<close>. \<open>originalRate\<close> is \<open>None\<close> when
  there is no rate select (\<open>rateSelect?.value\<close> is undefined).\<close>

definition restoreProfiles ::
  "env \<Rightarrow> nat \<Rightarrow> string \<Rightarrow> nat option \<Rightarrow> string option \<Rightarrow> state \<Rightarrow> state" where
  "restoreProfiles e pidSel originalPid rateSel originalRate s =
     (let s1 = setStatus ''Restoring original profiles...'' s;
          s2 = sleep 1000 (snd (setSelectValueVerified e pidSel originalPid s1));
          s3 = (case rateSel of
                  Some r \<Rightarrow>
                    (case originalRate of
                       Some v \<Rightarrow> snd (setSelectValueVerified e r v s2)
                     | None \<Rightarrow> s2)
                | None \<Rightarrow> s2)
      in sleep 1000 s3)"

definition handlePidTuningTab :: "env \<Rightarrow> string \<Rightarrow> string \<Rightarrow> state \<Rightarrow> unit res option" where
  "handlePidTuningTab e folder pfx s =
     (let subTabCount = length (subTabs e (clock s));
          cycling = (case pidSelect e of
                       Some pidSel \<Rightarrow> length (soptions (selects s pidSel)) > 1
                     | None \<Rightarrow> False)
      in if cycling then
           (let pidSel = the (pidSelect e);
                originalPid = svalue (selects s pidSel);
                originalRate = map_option (\<lambda>r. svalue (selects s r)) (rateSelect e);
                pidCount = length (soptions (selects s pidSel));
                rateCount = (case rateSelect e of
                               Some r \<Rightarrow> length (soptions (selects s r))
                             | None \<Rightarrow> 0)
            in bindR (pidLoop e folder pfx pidSel pidCount [0..<pidCount] s)
              (\<lambda>_ s1.
            bindR (if subTabCount > 1 then
                     (if rateSelect e \<noteq> None \<and> rateCount > 1 then
                        rateLoop e folder pfx (the (rateSelect e)) rateCount [0..<rateCount] s1
                      else
                        captureAndSave e folder (pfx @ ''_Rates'')
                          (sleep 800 (snd (clickSubTab e 1 s1))))
                   else Some (Ok () s1))
              (\<lambda>_ s2.
            bindR (if subTabCount > 2 then
                     captureAndSave e folder (pfx @ ''_Filter'')
                       (sleep 800 (snd (clickSubTab e 2 (setStatus ''Filter settings...'' s2))))
                   else Some (Ok () s2))
              (\<lambda>_ s3.
            Some (Ok () (restoreProfiles e pidSel originalPid (rateSelect e) originalRate s3))))))
         else captureTabWithSubTabs e folder pfx ''PID_Tuning'' ''PID Tuning'' s)"

subsection \<open>The CLI tab\<close>

text \<open>\<open>cliRead\<close>: the terminal buffer through the bridge, or else the text of the
  first non-empty DOM fallback, or else the empty string. The environment supplies the
  resulting text.\<close>

definition cliRead :: "env \<Rightarrow> state \<Rightarrow> string" where
  "cliRead e s = terminal e (clock s)"

definition cliClear :: "env \<Rightarrow> state \<Rightarrow> state" where
  "cliClear e s =
     (if hasClearBtn e (clock s) then sleep 400 (click ClearButton s) else s)"

text \<open>\<open>cliSend\<close> asks the bridge first and falls back to keyboard simulation and to an
  input field; the environment says whether one of the three succeeds. The short pauses
  inside the two fallbacks are not modelled.\<close>

definition cliSend :: "env \<Rightarrow> string \<Rightarrow> state \<Rightarrow> bool \<times> state" where
  "cliSend e cmd s = (cliSendOk e (clock s), send (CliSend cmd) s)"

text \<open>The two ways \<open>cliWaitForStableOutput\<close> returns: from inside the loop, after
  logging that the output is stableCnt, or after the loop, after logging the timeout.\<close>

datatype wait_outcome = Stable | TimedOut

text \<open>The \<open>while\<close> loop of \<open>cliWaitForStableOutput\<close>.\<close>

function cliWaitLoop ::
  "env \<Rightarrow> nat \<Rightarrow> nat \<Rightarrow> nat \<Rightarrow> nat \<Rightarrow> state \<Rightarrow> wait_outcome res" where
  "cliWaitLoop e start maxMs lastLen stableCnt s =
     (if int (clock s) - int start < int maxMs then
        (case checkAbort e s of
           Threw msg s' \<Rightarrow> Threw msg s'
         | Ok _ _ \<Rightarrow>
        (let s1 = sleep 1000 s in
         case checkAbort e s1 of
           Threw msg s' \<Rightarrow> Threw msg s'
         | Ok _ _ \<Rightarrow>
        (let out = cliRead e s1;
             len = length out
         in if len > lastLen then cliWaitLoop e start maxMs len 0 s1
            else if len > 0 then
              (if stableCnt + 1 \<ge> 2 then Ok Stable s1
               else cliWaitLoop e start maxMs lastLen (stableCnt + 1) s1)
            else cliWaitLoop e start maxMs lastLen stableCnt s1)))
      else Ok TimedOut s)"
  by pat_completeness auto
termination
  by (relation "measure (\<lambda>(e, start, maxMs, lastLen, stableCnt, s).
                  nat (int start + int maxMs - int (clock s)))")
     (auto simp: sleep_def)

declare cliWaitLoop.simps [simp del]

definition cliWaitForStableOutput :: "env \<Rightarrow> nat \<Rightarrow> state \<Rightarrow> wait_outcome res" where
  "cliWaitForStableOutput e maxMs s = cliWaitLoop e (clock s) maxMs 0 0 s"

text \<open>\<open>String.prototype.trim\<close> on one-byte characters: white space and line
  terminators are removed from both ends.\<close>

definition isWhiteSpace :: "char \<Rightarrow> bool" where
  "isWhiteSpace c = (of_char c \<in> {9, 10, 11, 12, 13, 32, 160 :: nat})"

definition trim :: "string \<Rightarrow> string" where
  "trim str = rev (dropWhile isWhiteSpace (rev (dropWhile isWhiteSpace str)))"

definition quoted :: "string \<Rightarrow> string" where
  "quoted str = CHR 0x27 # str @ [CHR 0x27]"

text \<open>\<open>(n / 1024).toFixed(1)\<close>: tenths of a kilobyte, rounded to nearest, ties up.\<close>

definition toFixedKB :: "nat \<Rightarrow> string" where
  "toFixedKB n =
     (let tenths = (20 * n + 1024) div 2048
      in String (tenths div 10) @ ''.'' @ String (tenths mod 10))"

text \<open>What \<open>handleCliTab\<close> does with the text read after a command: save it, or warn.\<close>

definition cliPersist :: "string \<Rightarrow> string \<Rightarrow> string \<Rightarrow> state \<Rightarrow> state" where
  "cliPersist cmd file output s =
     (if output \<noteq> [] \<and> length (trim output) > 10 then
        setStatus (quoted cmd @ '' saved ('' @ toFixedKB (length output) @ '' KB).'')
          (saveToZip ''CLI'' file output False s)
      else setStatus (''WARNING: No output for '' @ quoted cmd @ ''.'') s)"

text \<open>One iteration of the command loop of \<open>handleCliTab\<close>. (The dash in the source's
  error messages is written as a hyphen here.)\<close>

fun cliCommand :: "env \<Rightarrow> string \<times> string \<times> nat \<Rightarrow> state \<Rightarrow> unit res" where
  "cliCommand e (cmd, file, timeout) s =
     (case checkAbort e s of
        Threw msg s' \<Rightarrow> Threw msg s'
      | Ok _ _ \<Rightarrow>
      if isConnected (connDom e (clock s)) = Some False then
        Threw ''Connection lost during CLI extraction - backup aborted.''
          (setStatus ''WARNING: Connection lost during CLI extraction.'' s)
      else
        (let s1 = sleep 500 (cliClear e s);
             s2 = setStatus (''CLI: '' @ cmd @ ''...'') s1;
             sent = fst (cliSend e cmd s2);
             s3 = snd (cliSend e cmd s2)
         in if \<not> sent then
              Ok () (setStatus (''WARNING: Could not send '' @ quoted cmd @ '' - skipping.'') s3)
            else
              (case cliWaitForStableOutput e timeout
                      (setStatus (''Waiting for '' @ quoted cmd @ '' response...'') s3) of
                 Threw msg s' \<Rightarrow> Threw msg s'
               | Ok _ s5 \<Rightarrow>
                 if isConnected (connDom e (clock s5)) = Some False then
                   Threw ''Connection lost during CLI extraction - backup aborted.''
                     (setStatus ''WARNING: Connection lost while waiting for CLI output.'' s5)
                 else Ok () (sleep 1000 (cliPersist cmd file (cliRead e s5) s5)))))"

fun cliCommands :: "env \<Rightarrow> (string \<times> string \<times> nat) list \<Rightarrow> state \<Rightarrow> unit res" where
  "cliCommands e [] s = Ok () s"
| "cliCommands e (c # cs) s =
     (case cliCommand e c s of
        Threw msg s' \<Rightarrow> Threw msg s'
      | Ok _ s' \<Rightarrow> cliCommands e cs s')"

definition commands :: "(string \<times> string \<times> nat) list" where
  "commands = [(''diff all'', ''diff_all.txt'', 30000), (''dump all'', ''dump_all.txt'', 45000)]"

definition handleCliTab :: "env \<Rightarrow> state \<Rightarrow> unit res" where
  "handleCliTab e s =
     (let s1 = sleep 3000 (setStatus ''Extracting CLI configuration...'' s) in
      if isConnected (connDom e (clock s1)) = Some False then
        Threw ''Connection lost before CLI extraction - backup aborted.'' s1
      else cliCommands e commands s1)"

subsection \<open>Notions for stating the behaviour of the quiescence wait\<close>

text \<open>The length of what the \<open>k\<close>-th poll reads (\<open>k = 1, 2, \<dots>\<close>), for a wait entered at
  time \<open>start\<close>: polls are one second apart.\<close>

definition pollLen :: "env \<Rightarrow> nat \<Rightarrow> nat \<Rightarrow> nat" where
  "pollLen e start k = length (terminal e (start + 1000 * k))"

text \<open>The condition in the words of the specification: the polls \<open>n - 1\<close> and \<open>n\<close>
  are two consecutive polls that read a non-empty text of the same length as the poll
  before them.\<close>

definition unchangedTwice :: "(nat \<Rightarrow> nat) \<Rightarrow> nat \<Rightarrow> bool" where
  "unchangedTwice L n =
     (3 \<le> n \<and> 0 < L n \<and> L n = L (n - 1) \<and> L (n - 1) = L (n - 2))"

text \<open>What the loop has seen when it declares the output stable at poll \<open>n\<close>: a poll
  \<open>i\<close> with the greatest length of all polls so far, and after it exactly two non-empty
  polls, \<open>m\<close> and \<open>n\<close>, neither longer than poll \<open>i\<close>; every other poll after \<open>i\<close> read
  nothing.\<close>

definition quiescentAt :: "(nat \<Rightarrow> nat) \<Rightarrow> nat \<Rightarrow> bool" where
  "quiescentAt L n =
     (\<exists>i \<in> {1..<n}. \<exists>m \<in> {i<..<n}.
        0 < L m \<and> L m \<le> L i \<and> 0 < L n \<and> L n \<le> L i
        \<and> (\<forall>j \<in> {1..n}. L j \<le> L i)
        \<and> (\<forall>j \<in> {i<..<n}. j \<noteq> m \<longrightarrow> L j = 0))"

text \<open>The invariant of the loop after \<open>k\<close> polls, relating \<open>lastLen\<close> and \<open>stable\<close> to
  the lengths read so far.\<close>

definition waitInv :: "(nat \<Rightarrow> nat) \<Rightarrow> nat \<Rightarrow> nat \<Rightarrow> nat \<Rightarrow> bool" where
  "waitInv L k lastLen stableCnt =
     (stableCnt < 2 \<and> (\<forall>j \<in> {1..k}. L j \<le> lastLen) \<and>
      (if lastLen = 0 then stableCnt = 0
       else \<exists>i \<in> {1..k}. L i = lastLen \<and>
              (if stableCnt = 0 then \<forall>j \<in> {i<..k}. L j = 0
               else \<exists>m \<in> {i<..k}. 0 < L m \<and> (\<forall>j \<in> {i<..k}. j \<noteq> m \<longrightarrow> L j = 0))))"

text \<open>What the loop guarantees about its result when entered after \<open>k\<close> polls: the
  state differs from the entry state in the clock only, which stands at a whole number
  of seconds after \<open>start\<close>.\<close>

definition waitPost :: "env \<Rightarrow> nat \<Rightarrow> nat \<Rightarrow> nat \<Rightarrow> state \<Rightarrow> wait_outcome res \<Rightarrow> bool" where
  "waitPost e start maxMs k s r =
     (case r of
        Ok Stable s' \<Rightarrow>
          \<exists>n>k. s' = s\<lparr>clock := start + 1000 * n\<rparr> \<and> 1000 * (n - 1) < maxMs
                \<and> quiescentAt (pollLen e start) n
      | Ok TimedOut s' \<Rightarrow>
          \<exists>n\<ge>k. s' = s\<lparr>clock := start + 1000 * n\<rparr> \<and> maxMs \<le> 1000 * n
                \<and> (k < n \<longrightarrow> 1000 * (n - 1) < maxMs)
      | Threw msg s' \<Rightarrow>
          msg = ''Backup stopped by user.'' \<and> abortRequested e s'
          \<and> (\<exists>n\<ge>k. s' = s\<lparr>clock := start + 1000 * n\<rparr> \<and> 1000 * (n - 1) < maxMs))"

subsection \<open>The main backup process\<close>

definition TAB_ENGLISH_NAMES :: "(string \<times> string) list" where
  "TAB_ENGLISH_NAMES =
     [(''tab_setup'', ''Setup''), (''tab_ports'', ''Ports''),
      (''tab_configuration'', ''Configuration''), (''tab_power'', ''Power''),
      (''tab_failsafe'', ''Failsafe''), (''tab_pid_tuning'', ''PID_Tuning''),
      (''tab_receiver'', ''Receiver''), (''tab_modes'', ''Modes''),
      (''tab_adjustments'', ''Adjustments''), (''tab_servos'', ''Servos''),
      (''tab_motors'', ''Motors''), (''tab_osd'', ''OSD''), (''tab_vtx'', ''VTX''),
      (''tab_led_strip'', ''LED_Strip''), (''tab_sensors'', ''Sensors''),
      (''tab_gps'', ''GPS''), (''tab_logging'', ''Blackbox''), (''tab_cli'', ''CLI'')]"

text \<open>\<open>str.replace(pat, '')\<close> with a string pattern: the first occurrence is removed.\<close>

fun removeFirst :: "string \<Rightarrow> string \<Rightarrow> string" where
  "removeFirst pat [] = []"
| "removeFirst pat (c # str) =
     (if prefix pat (c # str) then drop (length pat) (c # str)
      else c # removeFirst pat str)"

definition replaceAll :: "char \<Rightarrow> char \<Rightarrow> string \<Rightarrow> string" where
  "replaceAll a b str = map (\<lambda>c. if c = a then b else c) str"

text \<open>\<open>\w\<close> and \<open>toUpperCase\<close> on one-byte characters.\<close>

definition isWordChar :: "char \<Rightarrow> bool" where
  "isWordChar c =
     (let n = (of_char c :: nat)
      in (48 \<le> n \<and> n \<le> 57) \<or> (65 \<le> n \<and> n \<le> 90) \<or> n = 95 \<or> (97 \<le> n \<and> n \<le> 122))"

definition toUpperCase :: "char \<Rightarrow> char" where
  "toUpperCase c =
     (let n = (of_char c :: nat)
      in if 97 \<le> n \<and> n \<le> 122 then char_of (n - 32) else c)"

text \<open>\<open>replace(/\b\w/g, c => c.toUpperCase())\<close>: every word character that follows a
  non-word character, or starts the string, is put in upper case.\<close>

fun capitalizeWords :: "bool \<Rightarrow> string \<Rightarrow> string" where
  "capitalizeWords prevIsWord [] = []"
| "capitalizeWords prevIsWord (c # str) =
     (if isWordChar c \<and> \<not> prevIsWord then toUpperCase c else c)
     # capitalizeWords (isWordChar c) str"

definition englishNameOf :: "string \<Rightarrow> string" where
  "englishNameOf tabCls =
     (case map_of TAB_ENGLISH_NAMES tabCls of
        Some name \<Rightarrow> name
      | None \<Rightarrow>
          replaceAll CHR '' '' CHR ''_''
            (capitalizeWords False
               (replaceAll CHR ''_'' CHR '' '' (removeFirst ''tab_'' tabCls))))"

text \<open>The discovery loop: up to ten queries, half a second apart.\<close>

function discoverTabs :: "env \<Rightarrow> nat \<Rightarrow> state \<Rightarrow> tab list \<times> state" where
  "discoverTabs e attempt s =
     (if attempt < 10 then
        (let tabEls = navigation e (clock s) in
         if length tabEls > 0 then (tabEls, s)
         else discoverTabs e (attempt + 1)
                (sleep 500 (setStatus ''Waiting for Betaflight UI...'' s)))
      else ([], s))"
  by pat_completeness auto
termination
  by (relation "measure (\<lambda>(e, attempt, s). 10 - attempt)") auto

declare discoverTabs.simps [simp del]

text \<open>What the loop does with one panel after navigating to it.\<close>

definition dispatch ::
  "env \<Rightarrow> options \<Rightarrow> tab \<Rightarrow> string \<Rightarrow> string \<Rightarrow> string \<Rightarrow> state \<Rightarrow> unit res option" where
  "dispatch e opts t folder pfx englishName s =
     (if cls t = ''tab_cli'' then Some (handleCliTab e s)
      else if cls t = ''tab_pid_tuning'' then
        (if profiles opts then handlePidTuningTab e folder pfx s
         else captureTabWithSubTabs e folder pfx englishName (label t) s)
      else captureTabWithSubTabs e folder pfx englishName (label t) s)"

text \<open>The \<open>for (const tab of filteredTabs)\<close> loop, entered with the remaining tabs and
  \<open>idx\<close>. A tab without a \<open>tab_\<close> class has the class \<open>''\<close>, for which the selector
  of the link is malformed and \<open>querySelector\<close> throws.\<close>

fun tabLoop :: "env \<Rightarrow> options \<Rightarrow> nat \<Rightarrow> tab list \<Rightarrow> nat \<Rightarrow> state \<Rightarrow> unit res option" where
  "tabLoop e opts tabCount [] idx s = Some (Ok () s)"
| "tabLoop e opts tabCount (t # ts) idx s =
     (case checkAbort e s of
        Threw msg s' \<Rightarrow> Some (Threw msg s')
      | Ok _ _ \<Rightarrow>
      if isConnected (connDom e (clock s)) = Some False then
        Some (Threw ''Connection lost - backup aborted.'' s)
      else
        (let s1 = setProgress idx tabCount s;
             englishName = englishNameOf (cls t);
             folder = padStart2 (String idx) @ ''_'' @ englishName;
             pfx = padStart2 (String idx);
             s2 = setStatus (''Tab '' @ String idx @ ''/'' @ String tabCount @ '': '' @ label t) s1
         in if cls t = [] then Some (Threw ''SyntaxError: not a valid selector'' s2)
            else if \<not> hasLink e (cls t) (clock s2) then tabLoop e opts tabCount ts idx s2
            else
              bindR (dispatch e opts t folder pfx englishName
                       (sleep 3500 (click (TabLink (cls t)) s2)))
                (\<lambda>_ s3. tabLoop e opts tabCount ts (idx + 1) s3)))"

definition startBackupProcess :: "env \<Rightarrow> options \<Rightarrow> state \<Rightarrow> unit res option" where
  "startBackupProcess e opts s =
     finallyR
       (let s0 = startKeepalive (setStatus ''Starting backup...'' s);
            s1 = (if expertUnchecked e
                  then sleep 1500 (click ExpertMode (setStatus ''Enabling Expert Mode...'' s0))
                  else s0);
            tabs = fst (discoverTabs e 0 s1);
            s2 = snd (discoverTabs e 0 s1)
        in if length tabs = 0 then
             Some (Threw ''Navigation not found - is the drone connected?'' s2)
           else
             bindR (tabLoop e opts (totalTabs opts tabs) (filteredTabs opts tabs) 1
                      (setProgress 0 (totalTabs opts tabs) s2))
               (\<lambda>_ s3. Some (Ok () (send ExtractionComplete
                                       (setStatus ''Building ZIP...''
                                          (setProgress (totalTabs opts tabs) (totalTabs opts tabs) s3))))))
       stopKeepalive"

subsection \<open>The message listener of the content script\<close>

record content =
  backupRunning :: bool
  abortFlag :: bool

datatype request = RunExtraction "options option" | AbortBackup | OtherAction

definition defaultOptions :: options where
  "defaultOptions = \<lparr>screenshots = True, cli = True, profiles = True, selectedTabs = None\<rparr>"

text \<open>The listener returns the new flags and, when it starts a run, the options the run
  is started with. The flag \<open>abortFlag\<close> is the variable \<open>abortRequested\<close>.\<close>

definition onMessage :: "request \<Rightarrow> content \<Rightarrow> content \<times> options option" where
  "onMessage req c =
     (case req of
        RunExtraction ropts \<Rightarrow>
          (if backupRunning c then (c, None)
           else (c\<lparr>backupRunning := True, abortFlag := False\<rparr>,
                 Some (case ropts of Some opts \<Rightarrow> opts | None \<Rightarrow> defaultOptions)))
      | AbortBackup \<Rightarrow> (c\<lparr>abortFlag := True\<rparr>, None)
      | OtherAction \<Rightarrow> (c, None))"

text \<open>The \<open>finally\<close> block of the run.\<close>

definition runFinished :: "content \<Rightarrow> content" where
  "runFinished c = c\<lparr>backupRunning := False, abortFlag := False\<rparr>"

text \<open>The events the listener sees, for stating that runs do not overlap: a message
  arrives, or the run in progress ends. The second component counts the runs in
  progress.\<close>

datatype event = Message request | RunEnds

fun contentStep :: "content \<times> nat \<Rightarrow> event \<Rightarrow> content \<times> nat" where
  "contentStep (c, active) (Message req) =
     (fst (onMessage req c),
      (case snd (onMessage req c) of Some opts \<Rightarrow> active + 1 | None \<Rightarrow> active))"
| "contentStep (c, active) RunEnds =
     (if active > 0 then (runFinished c, active - 1) else (c, active))"

definition contentRun :: "content \<times> nat \<Rightarrow> event list \<Rightarrow> content \<times> nat" where
  "contentRun st evs = foldl contentStep st evs"

section \<open>The background service worker\<close>

text \<open>The archive under construction: the files added so far, by folder name and file
  name inside the root folder, each with its data (\<open>None\<close> for \<open>undefined\<close>) and
  whether the data is base64. Adding a file under an existing name replaces it.\<close>

type_synonym archive = "string \<times> string \<rightharpoonup> string option \<times> bool"

datatype tab_message = TabRunExtraction options | TabAbortBackup

record worker =
  isRunning :: bool
  backupZip :: "archive option"
  rootFolderName :: string
  activeTabId :: "nat option"
  badge :: "string \<times> string"                 \<comment> \<open>text and colour\<close>
  backupStatus :: "(string \<times> string) option"   \<comment> \<open>the status kept in session storage\<close>
  relayed :: "(string \<times> string) list"        \<comment> \<open>statuses relayed to the popup, oldest first\<close>
  tabOutbox :: "(nat \<times> tab_message) list"     \<comment> \<open>messages sent to tabs, oldest first\<close>

definition setBadge :: "string \<Rightarrow> string \<Rightarrow> worker \<Rightarrow> worker" where
  "setBadge text color w = w\<lparr>badge := (text, color)\<rparr>"

definition updateStatus :: "string \<Rightarrow> string \<Rightarrow> worker \<Rightarrow> worker" where
  "updateStatus action msg w =
     w\<lparr>backupStatus := Some (action, msg), relayed := relayed w @ [(action, msg)]\<rparr>"

text \<open>\<open>handleStartBackup\<close>, with the timestamp it reads from the clock. The message
  to the tab is what \<open>sendOrInject\<close> sends.\<close>

definition handleStartBackup :: "nat \<Rightarrow> options \<Rightarrow> string \<Rightarrow> worker \<Rightarrow> worker" where
  "handleStartBackup tabId opts timestamp w =
     (if isRunning w then updateStatus ''backupError'' ''Backup is already running.'' w
      else
        (let w1 = w\<lparr>isRunning := True, backupStatus := None\<rparr>;
             w2 = w1\<lparr>backupZip := Some Map.empty,
                     rootFolderName := ''Betaflight_Backup_'' @ timestamp\<rparr>;
             w3 = updateStatus ''backupStatusUpdate'' ''Starting backup...''
                    (setBadge ''...'' ''#ff9800'' w2);
             w4 = w3\<lparr>activeTabId := Some tabId\<rparr>
         in w4\<lparr>tabOutbox := tabOutbox w4 @ [(tabId, TabRunExtraction opts)]\<rparr>))"

text \<open>The \<open>catch\<close> branch of \<open>sendOrInject\<close>, when the content script cannot be
  injected.\<close>

definition injectionFailed :: "worker \<Rightarrow> worker" where
  "injectionFailed w =
     updateStatus ''backupError''
       ''Could not start backup. Please RELOAD the Betaflight tab (F5) and try again.''
       (setBadge ''!'' ''#ef5350'' (w\<lparr>isRunning := False\<rparr>))"

datatype worker_request =
    Keepalive
  | StopBackup
  | StartBackup nat "options option"
  | SetStatusReq string "progress option"
  | SaveFileReq string string string bool
  | ExtractionErrorReq string

datatype response =
    Alive
  | SaveResult bool "string option"     \<comment> \<open>\<open>success\<close> and \<open>error\<close>\<close>

text \<open>\<open>content.split(',')[1]\<close>: the text between the first and the second comma,
  \<open>undefined\<close> when there is no comma.\<close>

definition base64Data :: "string \<Rightarrow> string option" where
  "base64Data content =
     (if CHR '','' \<in> set content
      then Some (takeWhile (\<lambda>c. c \<noteq> CHR '','') (tl (dropWhile (\<lambda>c. c \<noteq> CHR '','') content)))
      else None)"

text \<open>The worker's message listener for the messages above: the new state and the
  response sent, if any. \<open>activeTabId\<close> is tested for truthiness, and 0 is falsy.\<close>

definition workerOnMessage ::
  "worker_request \<Rightarrow> string \<Rightarrow> worker \<Rightarrow> worker \<times> response option" where
  "workerOnMessage req timestamp w =
     (case req of
        Keepalive \<Rightarrow> (w, Some Alive)
      | StopBackup \<Rightarrow>
          (if isRunning w \<and> activeTabId w \<noteq> None \<and> activeTabId w \<noteq> Some 0 then
             (let w1 = w\<lparr>tabOutbox := tabOutbox w @ [(the (activeTabId w), TabAbortBackup)]\<rparr>;
                  w2 = w1\<lparr>isRunning := False, backupZip := None\<rparr>
              in (updateStatus ''backupError'' ''Backup stopped by user.''
                    (setBadge ''!'' ''#ef5350'' w2), None))
           else (w, None))
      | StartBackup tabId ropts \<Rightarrow>
          (handleStartBackup tabId
             (case ropts of Some opts \<Rightarrow> opts | None \<Rightarrow> defaultOptions) timestamp w, None)
      | SetStatusReq msg prog \<Rightarrow>
          (updateStatus ''backupStatusUpdate'' msg
             (case prog of
                Some pr \<Rightarrow> setBadge (String (current pr)) ''#ff9800'' w
              | None \<Rightarrow> w), None)
      | SaveFileReq folderName fileName content isBase64 \<Rightarrow>
          (case backupZip w of
             None \<Rightarrow> (w, Some (SaveResult False (Some ''No active backup'')))
           | Some jszip \<Rightarrow>
               (w\<lparr>backupZip :=
                     Some (jszip((folderName, fileName) \<mapsto>
                            (if isBase64 then (base64Data content, True)
                             else (Some content, False))))\<rparr>,
                Some (SaveResult True None)))
      | ExtractionErrorReq msg \<Rightarrow>
          (updateStatus ''backupError'' msg
             (setBadge ''!'' ''#ef5350'' (w\<lparr>isRunning := False\<rparr>)), None))"


subsection \<open>The keyboard shortcut\<close>

text \<open>The options the shortcut starts a backup with: the saved \<open>backupOptions\<close> or the
  defaults, and, when \<open>tabSelections\<close> is saved, the keys whose value is truthy as
  \<open>selectedTabs\<close>.\<close>

definition shortcutOptions :: "options option \<Rightarrow> (string \<times> bool) list option \<Rightarrow> options" where
  "shortcutOptions backupOptions tabSelections =
     (let opts = (case backupOptions of Some saved \<Rightarrow> saved | None \<Rightarrow> defaultOptions)
      in case tabSelections of
           Some sel \<Rightarrow> opts\<lparr>selectedTabs := Some (map fst (filter snd sel))\<rparr>
         | None \<Rightarrow> opts)"

text \<open>The listener of \<open>chrome.commands.onCommand\<close>, given the command, the active tab
  (its id and its url, if any) and the saved preferences. It returns without a word when a
  backup is running. The two \<open>await\<close>s between that test and \<open>handleStartBackup\<close>, which
  tests the flag again, are taken in one step here.\<close>

definition onCommand ::
  "string \<Rightarrow> (nat \<times> string option) option \<Rightarrow> options option \<Rightarrow> (string \<times> bool) list option
   \<Rightarrow> string \<Rightarrow> worker \<Rightarrow> worker" where
  "onCommand command tab backupOptions tabSelections timestamp w =
     (if command \<noteq> ''start-backup'' then w
      else if isRunning w then w
      else
        (case tab of
           None \<Rightarrow> w
         | Some (tabId, None) \<Rightarrow> w
         | Some (tabId, Some url) \<Rightarrow>
             (if \<not> str_includes url ''app.betaflight.com'' then w
              else handleStartBackup tabId (shortcutOptions backupOptions tabSelections)
                     timestamp w)))"

subsection \<open>The worker and the content scripts together\<close>

text \<open>The worker, the listener of the content script in each tab with the number of runs
  in progress there, and how many of the messages the worker has sent to tabs have reached
  their tab. Messages reach the tabs in the order in which they were sent.\<close>

record system =
  wk :: worker
  scripts :: "nat \<Rightarrow> content \<times> nat"
  delivered :: nat

datatype sys_event =
    ToWorker worker_request string      \<comment> \<open>a message reaches the worker, with the clock's timestamp\<close>
  | Deliver                             \<comment> \<open>the oldest undelivered message reaches its tab\<close>
  | RunEndsIn nat                       \<comment> \<open>the run in progress in a tab ends\<close>

definition toRequest :: "tab_message \<Rightarrow> request" where
  "toRequest m = (case m of TabRunExtraction opts \<Rightarrow> RunExtraction (Some opts)
                  | TabAbortBackup \<Rightarrow> AbortBackup)"

fun sysStep :: "system \<Rightarrow> sys_event \<Rightarrow> system" where
  "sysStep sy (ToWorker req timestamp) = sy\<lparr>wk := fst (workerOnMessage req timestamp (wk sy))\<rparr>"
| "sysStep sy Deliver =
     (if delivered sy < length (tabOutbox (wk sy)) then
        (let tabId = fst (tabOutbox (wk sy) ! delivered sy);
             m = snd (tabOutbox (wk sy) ! delivered sy)
         in sy\<lparr>scripts := (scripts sy)(tabId := contentStep (scripts sy tabId)
                                                    (Message (toRequest m))),
               delivered := delivered sy + 1\<rparr>)
      else sy)"
| "sysStep sy (RunEndsIn tabId) =
     sy\<lparr>scripts := (scripts sy)(tabId := contentStep (scripts sy tabId) RunEnds)\<rparr>"

definition sysRun :: "system \<Rightarrow> sys_event list \<Rightarrow> system" where
  "sysRun sy evs = foldl sysStep sy evs"
section \<open>Example inputs\<close>

text \<open>A connected page on which every request succeeds: the base of the concrete runs
  below.\<close>

definition connectedDom :: conn_dom where
  "connectedDom = \<lparr>bemBtn = Some True, classicBtn = None, indicator = False, navTabs = []\<rparr>"

definition lostDom :: conn_dom where
  "lostDom = \<lparr>bemBtn = None, classicBtn = Some False, indicator = True, navTabs = [40]\<rparr>"

definition unknownDom :: conn_dom where
  "unknownDom = \<lparr>bemBtn = None, classicBtn = None, indicator = False, navTabs = [0, 0]\<rparr>"

definition env0 :: env where
  "env0 = \<lparr>abortAt = None,
           captureTab = (\<lambda>t. ResDataUrl ''data:image/jpeg;base64,AAAA''),
           connDom = (\<lambda>t. connectedDom),
           layout = (\<lambda>t. (600, 600)),
           subTabs = (\<lambda>t. []),
           pidSelect = None,
           rateSelect = None,
           accepts = (\<lambda>sel v t. True),
           terminal = (\<lambda>t. []),
           cliSendOk = (\<lambda>t. True),
           hasClearBtn = (\<lambda>t. False),
           expertUnchecked = False,
           navigation = (\<lambda>t. []),
           hasLink = (\<lambda>c t. True),
           innerWidth = 1280,
           decode = (\<lambda>u. None),
           toDataURL = (\<lambda>img. ''data:image/jpeg;base64,'')\<rparr>"

definition state0 :: state where
  "state0 = \<lparr>clock = 0, lastCaptureTime = 0, progressState = \<lparr>current = 0, total = 0\<rparr>,
             outbox = [], clicked = [],
             selects = (\<lambda>h. \<lparr>selector = None, soptions = [], svalue = []\<rparr>),
             scrollTop = 0, stickyHidden = False, keepalive = False\<rparr>"

definition worker0 :: worker where
  "worker0 = \<lparr>isRunning = False, backupZip = None, rootFolderName = [], activeTabId = None,
              badge = ([], []), backupStatus = None, relayed = [], tabOutbox = []\<rparr>"

text \<open>The extension at rest: an idle worker, idle content scripts, nothing sent.\<close>

definition system0 :: system where
  "system0 = \<lparr>wk = worker0,
              scripts = (\<lambda>tabId. (\<lparr>backupRunning = False, abortFlag = False\<rparr>, 0)),
              delivered = 0\<rparr>"

text \<open>A worker in the middle of a run for tab 7.\<close>

definition workerRunning :: worker where
  "workerRunning = handleStartBackup 7 defaultOptions ''2026-02-23_14-30'' worker0"

definition tabSetup :: tab where
  "tabSetup = \<lparr>cls = ''tab_setup'', label = ''Setup''\<rparr>"

definition tabPorts :: tab where
  "tabPorts = \<lparr>cls = ''tab_ports'', label = ''Ports''\<rparr>"

text \<open>A page whose connect button has lost the class \<open>active\<close>, and a page on which
  the probe finds nothing to go by.\<close>

definition envLost :: env where
  "envLost = env0\<lparr>connDom := (\<lambda>t. lostDom)\<rparr>"

definition envUnknown :: env where
  "envUnknown = env0\<lparr>connDom := (\<lambda>t. unknownDom)\<rparr>"

text \<open>A terminal whose text gets shorter from poll to poll, and one that grows and then
  stays as it is.\<close>

definition envShrinking :: env where
  "envShrinking = env0\<lparr>terminal :=
     (\<lambda>t. if t < 2000 then ''# diff all'' else if t < 3000 then ''# diff '' else ''# d'')\<rparr>"

definition envSettling :: env where
  "envSettling = env0\<lparr>terminal :=
     (\<lambda>t. if t < 2000 then ''# diff all'' else ''# diff all; set x = 1'')\<rparr>"

definition envGrowing :: env where
  "envGrowing = env0\<lparr>terminal := (\<lambda>t. replicate (t div 1000) CHR ''x'')\<rparr>"

text \<open>A worker whose capture primitive always times out, and one that fails once.\<close>

definition envFailing :: env where
  "envFailing = env0\<lparr>captureTab := (\<lambda>t. ResError ''captureVisibleTab timed out after 10s'')\<rparr>"

definition envFlaky :: env where
  "envFlaky = env0\<lparr>captureTab :=
     (\<lambda>t. if t < 2000 then LastError ''Tabs cannot be edited right now''
          else ResDataUrl ''data:image/jpeg;base64,AAAA'')\<rparr>"

text \<open>A panel that scrolls, on a worker whose capture primitive works for the first two
  seconds and times out afterwards.\<close>

definition envHalfway :: env where
  "envHalfway = env0\<lparr>layout := (\<lambda>t. (1200, 600)),
                      captureTab := (\<lambda>t. if t < 2000 then ResDataUrl ''data:first''
                                          else ResError ''captureVisibleTab timed out after 10s'')\<rparr>"

text \<open>Two captures of different height, and two captures of the same viewport taken
  before and after scrolling by two rows of the bitmap.\<close>

definition imgShort :: image where
  "imgShort = \<lparr>iwidth = 1, irows = [[1], [2]]\<rparr>"

definition imgTall :: image where
  "imgTall = \<lparr>iwidth = 1, irows = [[3], [4], [5]]\<rparr>"

definition imgFirst :: image where
  "imgFirst = \<lparr>iwidth = 2, irows = [[1, 1], [2, 2], [3, 3]]\<rparr>"

definition imgSecond :: image where
  "imgSecond = \<lparr>iwidth = 2, irows = [[3, 3], [4, 4], [5, 5]]\<rparr>"

text \<open>A browser window 4 CSS pixels wide that decodes two known data URLs.\<close>

definition envCodec :: env where
  "envCodec = env0\<lparr>innerWidth := 4,
     decode :=
       (\<lambda>u. if u = ''data:first'' then Some imgFirst
            else if u = ''data:second'' then Some imgSecond else None)\<rparr>"

text \<open>A PID tuning tab with three PID profiles and two rate profiles, the second of each
  active, and three sub-tabs. In \<open>envCycle\<close> the device takes every switch; in
  \<open>envStuck\<close> it refuses to switch the PID select to ''1'', the profile active at the start; in \<open>envAbort\<close> the user stops
  the backup two seconds into the cycle.\<close>

definition stateCycle :: state where
  "stateCycle = state0\<lparr>selects :=
     (\<lambda>h. if h = 0 then \<lparr>selector = Some ''#content select[name=profile]'',
                          soptions = [''0'', ''1'', ''2''], svalue = ''1''\<rparr>
          else if h = 1 then \<lparr>selector = Some ''#content select[name=rate_profile]'',
                               soptions = [''0'', ''1''], svalue = ''1''\<rparr>
          else \<lparr>selector = None, soptions = [], svalue = []\<rparr>)\<rparr>"

definition envCycle :: env where
  "envCycle = env0\<lparr>pidSelect := Some 0, rateSelect := Some 1,
                   subTabs := (\<lambda>t. [''PID'', ''Rates'', ''Filter''])\<rparr>"

definition envStuck :: env where
  "envStuck = envCycle\<lparr>accepts := (\<lambda>sel v t. \<not> (sel = 0 \<and> v = ''1''))\<rparr>"

definition envAbort :: env where
  "envAbort = envCycle\<lparr>abortAt := Some 2000\<rparr>"

section \<open>Properties of the panel filter\<close>

lemma str_includes_sublist: "str_includes s b = sublist b s"
  by (induction s) (auto simp: sublist_Cons_right)

lemma keepTab_code_included: "keepTab opts t = code_included opts t"
  by (auto simp: keepTab_def code_included_def list_ex_iff split: option.splits)

text \<open>C2, as stated, fails: a panel whose class merely contains a blacklisted name
  (here \<open>tab_presets_old\<close>) is not a member of the blacklist, so the stated predicate
  includes it, but the filter drops it.\<close>

theorem C2_counterexample:
  "spec_included \<lparr>screenshots = True, cli = True, profiles = True, selectedTabs = None\<rparr>
                 \<lparr>cls = ''tab_presets_old'', label = ''Old presets''\<rparr>
   \<and> \<not> keepTab \<lparr>screenshots = True, cli = True, profiles = True, selectedTabs = None\<rparr>
                 \<lparr>cls = ''tab_presets_old'', label = ''Old presets''\<rparr>"
  by (simp add: keepTab_def spec_included_def BLACKLIST_def)

text \<open>C2, amended: a discovered panel is in the work list if and only if its class
  contains no blacklisted name as a substring; if it is the console panel, console capture
  is enabled; and for every other panel, screenshot capture is enabled and the selection is
  absent, empty, or contains the class. The work list keeps the discovery order, and the
  progress total is the number of discovered panels satisfying this predicate.\<close>

theorem C2_filter_amended:
  "(t \<in> set (filteredTabs opts tabs) \<longleftrightarrow> t \<in> set tabs \<and> code_included opts t)
   \<and> filteredTabs opts tabs = filter (code_included opts) tabs
   \<and> totalTabs opts tabs = length (filter (code_included opts) tabs)"
proof -
  have "keepTab opts = code_included opts"
    by (rule ext) (rule keepTab_code_included)
  then show ?thesis
    by (simp add: filteredTabs_def totalTabs_def)
qed

theorem C2_filter_amended_witness:
  "filteredTabs \<lparr>screenshots = True, cli = False, profiles = True,
                  selectedTabs = Some [''tab_setup'', ''tab_osd'']\<rparr>
     [\<lparr>cls = ''tab_landing'', label = ''Welcome''\<rparr>, \<lparr>cls = ''tab_setup'', label = ''Setup''\<rparr>,
      \<lparr>cls = ''tab_ports'', label = ''Ports''\<rparr>, \<lparr>cls = ''tab_osd'', label = ''OSD''\<rparr>,
      \<lparr>cls = ''tab_cli'', label = ''CLI''\<rparr>]
   = [\<lparr>cls = ''tab_setup'', label = ''Setup''\<rparr>, \<lparr>cls = ''tab_osd'', label = ''OSD''\<rparr>]
   \<and> totalTabs \<lparr>screenshots = True, cli = False, profiles = True,
                  selectedTabs = Some [''tab_setup'', ''tab_osd'']\<rparr>
     [\<lparr>cls = ''tab_landing'', label = ''Welcome''\<rparr>, \<lparr>cls = ''tab_setup'', label = ''Setup''\<rparr>,
      \<lparr>cls = ''tab_ports'', label = ''Ports''\<rparr>, \<lparr>cls = ''tab_osd'', label = ''OSD''\<rparr>,
      \<lparr>cls = ''tab_cli'', label = ''CLI''\<rparr>] = 2"
  using C2_filter_amended [of _ "\<lparr>screenshots = True, cli = False, profiles = True,
                  selectedTabs = Some [''tab_setup'', ''tab_osd'']\<rparr>"
     "[\<lparr>cls = ''tab_landing'', label = ''Welcome''\<rparr>, \<lparr>cls = ''tab_setup'', label = ''Setup''\<rparr>,
      \<lparr>cls = ''tab_ports'', label = ''Ports''\<rparr>, \<lparr>cls = ''tab_osd'', label = ''OSD''\<rparr>,
      \<lparr>cls = ''tab_cli'', label = ''CLI''\<rparr>]"]
  by (simp add: code_included_def BLACKLIST_def)

section \<open>Basic facts about the state\<close>

lemmas state_defs =
  sleep_def send_def click_def setStatus_def setProgress_def saveToZip_def
  startKeepalive_def stopKeepalive_def hideStickyBottomElements_def
  restoreStickyBottomElements_def

lemma bindR_simps [simp]:
  "bindR None f = None"
  "bindR (Some (Threw msg s)) f = Some (Threw msg s)"
  "bindR (Some (Ok x s)) f = f x s"
  by (simp_all add: bindR_def)

lemma finallyR_simps [simp]:
  "finallyR None c = None"
  "finallyR (Some (Threw msg s)) c = Some (Threw msg (c s))"
  "finallyR (Some (Ok x s)) c = Some (Ok x (c s))"
  by (simp_all add: finallyR_def)

lemma checkAbort_simps:
  "abortRequested e s \<Longrightarrow> checkAbort e s = Threw ''Backup stopped by user.'' s"
  "\<not> abortRequested e s \<Longrightarrow> checkAbort e s = Ok () s"
  by (simp_all add: checkAbort_def)

lemma no_abort [simp]: "abortAt e = None \<Longrightarrow> \<not> abortRequested e s"
  by (simp add: abortRequested_def)

section \<open>Properties of the capture service\<close>


lemma captureAttempts_fail_step:
  "attempt < 3 \<Longrightarrow> attemptResult (captureTab e (clock s)) = None \<Longrightarrow>
   captureAttempts e attempt s
     = captureAttempts e (Suc attempt)
         (sleep (1500 * Suc attempt) (send CaptureTab (s\<lparr>lastCaptureTime := clock s\<rparr>)))"
  by (subst captureAttempts.simps) (simp add: Let_def)

lemma captureAttempts_success:
  "attempt < 3 \<Longrightarrow> attemptResult (captureTab e (clock s)) = Some u \<Longrightarrow>
   captureAttempts e attempt s = (Some u, send CaptureTab (s\<lparr>lastCaptureTime := clock s\<rparr>))"
  by (subst captureAttempts.simps) (simp add: Let_def)

lemma captureAttempts_done: "captureAttempts e (Suc (Suc (Suc 0))) s = (None, s)"
  by (subst captureAttempts.simps) simp

lemma captureAttempts_all_fail:
  assumes "attemptResult (captureTab e (clock s)) = None"
      and "attemptResult (captureTab e (clock s + 1500)) = None"
      and "attemptResult (captureTab e (clock s + 4500)) = None"
  shows "captureAttempts e 0 s
         = (None, s\<lparr>clock := clock s + 9000, lastCaptureTime := clock s + 4500,
                     outbox := outbox s @ [CaptureTab, CaptureTab, CaptureTab]\<rparr>)"
proof -
  let ?s1 = "sleep 1500 (send CaptureTab (s\<lparr>lastCaptureTime := clock s\<rparr>))"
  let ?s2 = "sleep 3000 (send CaptureTab (?s1\<lparr>lastCaptureTime := clock ?s1\<rparr>))"
  let ?s3 = "sleep 4500 (send CaptureTab (?s2\<lparr>lastCaptureTime := clock ?s2\<rparr>))"
  have c1: "clock ?s1 = clock s + 1500" by (simp add: state_defs)
  have c2: "clock ?s2 = clock s + 4500" by (simp add: state_defs)
  have "captureAttempts e 0 s = captureAttempts e (Suc 0) ?s1"
    using captureAttempts_fail_step [of 0 e s] assms(1) by simp
  also have "\<dots> = captureAttempts e (Suc (Suc 0)) ?s2"
    using captureAttempts_fail_step [of "Suc 0" e ?s1] assms(2) c1 by simp
  also have "\<dots> = captureAttempts e (Suc (Suc (Suc 0))) ?s3"
    using captureAttempts_fail_step [of "Suc (Suc 0)" e ?s2] assms(3) c2 by simp
  also have "\<dots> = (None, ?s3)"
    by (simp add: captureAttempts_done)
  also have "?s3 = s\<lparr>clock := clock s + 9000, lastCaptureTime := clock s + 4500,
                     outbox := outbox s @ [CaptureTab, CaptureTab, CaptureTab]\<rparr>"
    by (simp add: state_defs)
  finally show ?thesis .
qed

lemma captureAttempts_bound:
  "\<exists>k. 1 \<le> k \<and> k \<le> 3 \<and> outbox (snd (captureAttempts e 0 s)) = outbox s @ replicate k CaptureTab"
proof -
  let ?s1 = "sleep 1500 (send CaptureTab (s\<lparr>lastCaptureTime := clock s\<rparr>))"
  let ?s2 = "sleep 3000 (send CaptureTab (?s1\<lparr>lastCaptureTime := clock ?s1\<rparr>))"
  let ?s3 = "sleep 4500 (send CaptureTab (?s2\<lparr>lastCaptureTime := clock ?s2\<rparr>))"
  show ?thesis
  proof (cases "attemptResult (captureTab e (clock s))")
    case (Some u)
    then have "outbox (snd (captureAttempts e 0 s)) = outbox s @ replicate 1 CaptureTab"
      by (simp add: captureAttempts_success state_defs)
    then show ?thesis by (intro exI [of _ 1]) simp
  next
    case None
    then have r1: "captureAttempts e 0 s = captureAttempts e (Suc 0) ?s1"
      using captureAttempts_fail_step [of 0 e s] by simp
    show ?thesis
    proof (cases "attemptResult (captureTab e (clock ?s1))")
      case (Some u)
      then have "captureAttempts e (Suc 0) ?s1
                 = (Some u, send CaptureTab (?s1\<lparr>lastCaptureTime := clock ?s1\<rparr>))"
        using captureAttempts_success [of "Suc 0" e ?s1 u] by simp
      with r1 have "outbox (snd (captureAttempts e 0 s)) = outbox s @ replicate 2 CaptureTab"
        by (simp add: state_defs numeral_2_eq_2)
      then show ?thesis by (intro exI [of _ 2]) simp
    next
      case N1: None
      then have r2: "captureAttempts e (Suc 0) ?s1 = captureAttempts e (Suc (Suc 0)) ?s2"
        using captureAttempts_fail_step [of "Suc 0" e ?s1] by simp
      show ?thesis
      proof (cases "attemptResult (captureTab e (clock ?s2))")
        case (Some u)
        then have "captureAttempts e (Suc (Suc 0)) ?s2
                   = (Some u, send CaptureTab (?s2\<lparr>lastCaptureTime := clock ?s2\<rparr>))"
          using captureAttempts_success [of "Suc (Suc 0)" e ?s2 u] by simp
        with r1 r2 have "outbox (snd (captureAttempts e 0 s)) = outbox s @ replicate 3 CaptureTab"
          by (simp add: state_defs numeral_3_eq_3)
        then show ?thesis by (intro exI [of _ 3]) simp
      next
        case N2: None
        then have "captureAttempts e (Suc (Suc 0)) ?s2 = captureAttempts e (Suc (Suc (Suc 0))) ?s3"
          using captureAttempts_fail_step [of "Suc (Suc 0)" e ?s2] by simp
        with r1 r2 have "captureAttempts e 0 s = (None, ?s3)"
          by (simp add: captureAttempts_done)
        then have "outbox (snd (captureAttempts e 0 s)) = outbox s @ replicate 3 CaptureTab"
          by (simp add: state_defs numeral_3_eq_3)
        then show ?thesis by (intro exI [of _ 3]) simp
      qed
    qed
  qed
qed

lemma enforceInterval_fields [simp]:
  "outbox (enforceInterval s) = outbox s"
  "progressState (enforceInterval s) = progressState s"
  "selects (enforceInterval s) = selects s"
  "clicked (enforceInterval s) = clicked s"
  "scrollTop (enforceInterval s) = scrollTop s"
  "stickyHidden (enforceInterval s) = stickyHidden s"
  by (simp_all add: enforceInterval_def Let_def sleep_def)

lemma requestScreenshot_all_fail:
  assumes "\<forall>t. attemptResult (captureTab e t) = None"
  shows "requestScreenshot e s
         = (None, (enforceInterval s)\<lparr>clock := clock (enforceInterval s) + 9000,
                     lastCaptureTime := clock (enforceInterval s) + 4500,
                     outbox := outbox s @ [CaptureTab, CaptureTab, CaptureTab]\<rparr>)"
  unfolding requestScreenshot_def
  using captureAttempts_all_fail [of e "enforceInterval s"] assms by simp

lemma captureLoop_first_fails:
  assumes "\<not> abortRequested e s" "fst (requestScreenshot e s) = None"
  shows "captureLoop e base parts deltas s
         = Some (Ok (parts, deltas)
              (setStatus (''WARNING: Screenshot failed for '' @ base) (snd (requestScreenshot e s))))"
proof -
  obtain r s1 where rs: "requestScreenshot e s = (r, s1)"
    by (cases "requestScreenshot e s")
  with assms(2) have "r = None" by simp
  with rs assms(1) show ?thesis
    by (subst captureLoop.simps) (simp add: checkAbort_simps)
qed

lemma saveParts_Nil [simp]: "saveParts e folder base [] deltas s = s"
  by (simp add: saveParts_def)

lemma captureAndSave_all_fail:
  assumes fail: "\<forall>t. attemptResult (captureTab e t) = None" and na: "abortAt e = None"
  shows "\<exists>s'. captureAndSave e folder base s = Some (Ok () s')
          \<and> outbox s' = outbox s @ [CaptureTab, CaptureTab, CaptureTab,
                 SetStatus (''WARNING: Screenshot failed for '' @ base) (progressState s)]"
proof -
  let ?s0 = "sleep 300 (s\<lparr>scrollTop := 0\<rparr>)"
  let ?sm = "sleep 200 ((hideStickyBottomElements ?s0)\<lparr>scrollTop := 0\<rparr>)"
  show ?thesis
  proof (cases "int (fst (layout e (clock ?s0))) - int (snd (layout e (clock ?s0))) \<le> 100")
    case True
    then show ?thesis
      using requestScreenshot_all_fail [OF fail, of ?s0]
      by (simp add: captureAndSave_def Let_def state_defs)
  next
    case False
    have "fst (requestScreenshot e ?sm) = None"
      using requestScreenshot_all_fail [OF fail, of ?sm] by simp
    from captureLoop_first_fails [OF _ this, of base "[]" "[]"] na
    have "captureLoop e base [] [] ?sm
          = Some (Ok ([], [])
              (setStatus (''WARNING: Screenshot failed for '' @ base) (snd (requestScreenshot e ?sm))))"
      by simp
    with False show ?thesis
      using requestScreenshot_all_fail [OF fail, of ?sm]
      by (simp add: captureAndSave_def Let_def state_defs)
  qed
qed


lemma captureAttempts_second_succeeds:
  assumes "attemptResult (captureTab e (clock s)) = None"
      and "attemptResult (captureTab e (clock s + 1500)) = Some u"
  shows "captureAttempts e 0 s
         = (Some u, s\<lparr>clock := clock s + 1500, lastCaptureTime := clock s + 1500,
                       outbox := outbox s @ [CaptureTab, CaptureTab]\<rparr>)"
proof -
  let ?s1 = "sleep 1500 (send CaptureTab (s\<lparr>lastCaptureTime := clock s\<rparr>))"
  have c1: "clock ?s1 = clock s + 1500" by (simp add: state_defs)
  have "captureAttempts e 0 s = captureAttempts e (Suc 0) ?s1"
    using captureAttempts_fail_step [of 0 e s] assms(1) by simp
  also have "\<dots> = (Some u, send CaptureTab (?s1\<lparr>lastCaptureTime := clock ?s1\<rparr>))"
    using captureAttempts_success [of "Suc 0" e ?s1 u] assms(2) c1 by simp
  also have "send CaptureTab (?s1\<lparr>lastCaptureTime := clock ?s1\<rparr>)
             = s\<lparr>clock := clock s + 1500, lastCaptureTime := clock s + 1500,
                       outbox := outbox s @ [CaptureTab, CaptureTab]\<rparr>"
    by (simp add: state_defs)
  finally show ?thesis .
qed

lemma saveParts_single [simp]:
  "saveParts e folder base [u] deltas s = saveToZip folder (base @ ''.jpg'') u True s"
  by (simp add: saveParts_def)

lemma captureAndSave_no_scroll_fails:
  assumes "int (fst (layout e (clock s + 300))) - int (snd (layout e (clock s + 300))) \<le> 100"
      and "fst (requestScreenshot e (sleep 300 (s\<lparr>scrollTop := 0\<rparr>))) = None"
  shows "captureAndSave e folder base s
         = Some (Ok () (setStatus (''WARNING: Screenshot failed for '' @ base)
                          (snd (requestScreenshot e (sleep 300 (s\<lparr>scrollTop := 0\<rparr>))))))"
proof -
  let ?s0 = "sleep 300 (s\<lparr>scrollTop := 0\<rparr>)"
  obtain r s1 where rs: "requestScreenshot e ?s0 = (r, s1)"
    by (cases "requestScreenshot e ?s0")
  with assms(2) have "r = None" by simp
  moreover have "clock ?s0 = clock s + 300" by (simp add: sleep_def)
  ultimately show ?thesis
    using rs assms(1) by (simp add: captureAndSave_def Let_def)
qed

lemma captureAndSave_scroll:
  assumes "100 < int (fst (layout e (clock s + 300))) - int (snd (layout e (clock s + 300)))"
      and "captureLoop e base [] []
             (sleep 200 ((hideStickyBottomElements (sleep 300 (s\<lparr>scrollTop := 0\<rparr>)))
                           \<lparr>scrollTop := 0\<rparr>))
           = Some (Ok (parts, deltas) s3)"
  shows "captureAndSave e folder base s
         = Some (Ok () (restoreStickyBottomElements (saveParts e folder base parts deltas s3)))"
proof -
  have "clock (sleep 300 (s\<lparr>scrollTop := 0\<rparr>)) = clock s + 300"
    by (simp add: sleep_def)
  with assms show ?thesis
    by (simp add: captureAndSave_def Let_def)
qed



section \<open>Properties of the stitcher\<close>


lemma height_drawImageAt [simp]: "height (drawImageAt src sy sh dy cv) = height cv"
  by (simp add: drawImageAt_def height_def Let_def)

lemma iwidth_drawImageAt [simp]: "iwidth (drawImageAt src sy sh dy cv) = iwidth cv"
  by (simp add: drawImageAt_def Let_def)

lemma nth_drawImageAt:
  assumes "j < height cv" "0 \<le> sh"
  shows "irows (drawImageAt src sy sh dy cv) ! j =
     (if dy \<le> int j \<and> int j < dy + sh \<and> 0 \<le> sy + (int j - dy) \<and> sy + (int j - dy) < int (height src)
      then blitRow (iwidth cv) (irows src ! nat (sy + (int j - dy))) (irows cv ! j)
      else irows cv ! j)"
  using assms by (simp add: drawImageAt_def height_def Let_def min_def)

lemma length_blitRow: "length dst = cw \<Longrightarrow> length (blitRow cw src dst) = cw"
  by (simp add: blitRow_def)

lemma blitRow_full: "length src = cw \<Longrightarrow> length dst = cw \<Longrightarrow> blitRow cw src dst = src"
  by (simp add: blitRow_def)

lemma wf_image_nth: "wf_image img \<Longrightarrow> j < height img \<Longrightarrow> length (irows img ! j) = iwidth img"
  by (simp add: wf_image_def height_def list_all_length)

lemma wf_drawImageAt: "wf_image cv \<Longrightarrow> wf_image (drawImageAt src sy sh dy cv)"
  by (auto simp: wf_image_def drawImageAt_def height_def Let_def list_all_length length_blitRow)

lemma drawParts_Some:
  "i + length ds < length images \<Longrightarrow>
   \<exists>cv'. drawParts images H scale ds i y cv = Some cv' \<and> height cv' = height cv
          \<and> iwidth cv' = iwidth cv \<and> (wf_image cv \<longrightarrow> wf_image cv')"
proof (induction ds arbitrary: i y cv)
  case Nil
  then show ?case by simp
next
  case (Cons d ds)
  let ?cv1 = "drawImageAt (images ! (i + 1)) (int H - newPx scale d) (newPx scale d) y cv"
  from Cons.prems have "(i + 1) + length ds < length images" by simp
  from Cons.IH [OF this, of "y + newPx scale d" ?cv1]
  obtain cv' where "drawParts images H scale ds (i + 1) (y + newPx scale d) ?cv1 = Some cv'"
    "height cv' = height cv" "iwidth cv' = iwidth cv" "wf_image ?cv1 \<longrightarrow> wf_image cv'"
    by auto
  with Cons.prems show ?case by (auto simp: Let_def wf_drawImageAt)
qed

lemma drawParts_above:
  "\<forall>d \<in> set ds. 0 \<le> newPx scale d \<Longrightarrow> drawParts images H scale ds i y cv = Some cv' \<Longrightarrow>
   j < height cv \<Longrightarrow> int j < y \<Longrightarrow> irows cv' ! j = irows cv ! j"
proof (induction ds arbitrary: i y cv)
  case Nil
  then show ?case by simp
next
  case (Cons d ds)
  let ?px = "newPx scale d"
  let ?cv1 = "drawImageAt (images ! (i + 1)) (int H - ?px) ?px y cv"
  from Cons.prems have px: "0 \<le> ?px" and rest: "\<forall>d \<in> set ds. 0 \<le> newPx scale d" by auto
  from Cons.prems(2) have run: "drawParts images H scale ds (i + 1) (y + ?px) ?cv1 = Some cv'"
    by (simp add: Let_def split: if_splits)
  have "irows cv' ! j = irows ?cv1 ! j"
    using Cons.IH [OF rest run] Cons.prems(3,4) px by simp
  also have "\<dots> = irows cv ! j"
    using Cons.prems(3,4) px by (simp add: nth_drawImageAt)
  finally show ?case .
qed

lemma drawParts_rows:
  assumes "\<forall>d \<in> set ds. 0 \<le> newPx scale d"
      and "drawParts images H scale ds i y cv = Some cv'"
      and "wf_image cv"
      and "m < length ds" "0 \<le> k" "k < newPx scale (ds ! m)"
      and "0 \<le> int H - newPx scale (ds ! m) + k"
      and "int H - newPx scale (ds ! m) + k < int (height (images ! (i + 1 + m)))"
      and "wf_image (images ! (i + 1 + m))" "iwidth (images ! (i + 1 + m)) = iwidth cv"
      and "0 \<le> y" "y + sum_list (map (newPx scale) (take m ds)) + k < int (height cv)"
  shows "irows cv' ! nat (y + sum_list (map (newPx scale) (take m ds)) + k)
         = irows (images ! (i + 1 + m)) ! nat (int H - newPx scale (ds ! m) + k)"
  using assms
proof (induction ds arbitrary: i y cv m)
  case Nil
  then show ?case by simp
next
  case (Cons d ds)
  let ?px = "newPx scale d"
  let ?src = "images ! (i + 1)"
  let ?cv1 = "drawImageAt ?src (int H - ?px) ?px y cv"
  from Cons.prems(1) have px: "0 \<le> ?px" and rest: "\<forall>d \<in> set ds. 0 \<le> newPx scale d" by auto
  from Cons.prems(2) have run: "drawParts images H scale ds (i + 1) (y + ?px) ?cv1 = Some cv'"
    by (simp add: Let_def split: if_splits)
  have wf1: "wf_image ?cv1" using Cons.prems(3) by (rule wf_drawImageAt)
  show ?case
  proof (cases m)
    case 0
    let ?j = "nat (y + k)"
    from 0 Cons.prems have k: "0 \<le> k" "k < ?px" and y: "0 \<le> y" and j: "y + k < int (height cv)"
      and r: "0 \<le> int H - ?px + k" "int H - ?px + k < int (height ?src)"
      and src: "wf_image ?src" "iwidth ?src = iwidth cv"
      by simp_all
    have jlt: "?j < height cv" using j y k by simp
    have "irows cv' ! ?j = irows ?cv1 ! ?j"
      using drawParts_above [OF rest run, of ?j] jlt k y by simp
    also have "\<dots> = blitRow (iwidth cv) (irows ?src ! nat (int H - ?px + k)) (irows cv ! ?j)"
      using jlt px k y r by (simp add: nth_drawImageAt)
    also have "\<dots> = irows ?src ! nat (int H - ?px + k)"
    proof (rule blitRow_full)
      show "length (irows ?src ! nat (int H - ?px + k)) = iwidth cv"
        using wf_image_nth [OF src(1), of "nat (int H - ?px + k)"] r src(2) by simp
      show "length (irows cv ! ?j) = iwidth cv"
        using wf_image_nth [OF Cons.prems(3) jlt] .
    qed
    finally show ?thesis using 0 by simp
  next
    case (Suc m')
    have idx: "i + 1 + m = (i + 1) + 1 + m'" using Suc by simp
    have "irows cv' ! nat ((y + ?px) + sum_list (map (newPx scale) (take m' ds)) + k)
          = irows (images ! ((i + 1) + 1 + m')) ! nat (int H - newPx scale (ds ! m') + k)"
    proof (rule Cons.IH [OF rest run wf1])
      show "m' < length ds" using Cons.prems(4) Suc by simp
      show "0 \<le> k" by fact
      show "k < newPx scale (ds ! m')" using Cons.prems(6) Suc by simp
      show "0 \<le> int H - newPx scale (ds ! m') + k" using Cons.prems(7) Suc by simp
      show "int H - newPx scale (ds ! m') + k < int (height (images ! ((i + 1) + 1 + m')))"
        using Cons.prems(8) Suc by simp
      show "wf_image (images ! ((i + 1) + 1 + m'))" using Cons.prems(9) Suc by simp
      show "iwidth (images ! ((i + 1) + 1 + m')) = iwidth ?cv1" using Cons.prems(10) Suc by simp
      show "0 \<le> y + ?px" using Cons.prems(11) px by simp
      show "y + ?px + sum_list (map (newPx scale) (take m' ds)) + k < int (height ?cv1)"
        using Cons.prems(12) Suc by (simp add: add.assoc)
    qed
    then show ?thesis using Suc by (simp add: add.assoc)
  qed
qed


lemma wf_newCanvas [simp]: "wf_image (newCanvas w h)"
  by (simp add: wf_image_def newCanvas_def list_all_length)

lemma height_newCanvas [simp]: "height (newCanvas w h) = h"
  by (simp add: height_def newCanvas_def)

lemma iwidth_newCanvas [simp]: "iwidth (newCanvas w h) = w"
  by (simp add: newCanvas_def)

lemma sum_newPx_nonneg: "\<forall>d \<in> set ds. 0 \<le> newPx scale d \<Longrightarrow> 0 \<le> sum_list (map (newPx scale) ds)"
  by (induction ds) auto

lemma stitchCanvas_unfold:
  assumes "images = img0 # others" "0 < innerW" "length ds < length images"
      and "\<forall>d \<in> set ds. 0 \<le> newPx (scaleOf (iwidth img0) innerW) d"
      and "\<forall>d \<in> set ds. \<not> overflows (d * scaleOf (iwidth img0) innerW)"
  defines "scale \<equiv> scaleOf (iwidth img0) innerW"
  defines "cv0 \<equiv> drawImage img0 (newCanvas (iwidth img0)
                     (height img0 + nat (sum_list (map (newPx scale) ds))))"
  shows "\<exists>cv. stitchCanvas innerW images ds = Some cv
            \<and> drawParts images (height img0) scale ds 0 (int (height img0)) cv0 = Some cv
            \<and> iwidth cv = iwidth img0
            \<and> height cv = height img0 + nat (sum_list (map (newPx scale) ds))
            \<and> wf_image cv"
proof -
  have nonneg: "0 \<le> sum_list (map (newPx scale) ds)"
    using assms(4) unfolding scale_def by (rule sum_newPx_nonneg)
  then have dim: "canvasDim (int (height img0) + sum_list (map (newPx scale) ds))
                  = height img0 + nat (sum_list (map (newPx scale) ds))"
    by (simp add: canvasDim_def nat_add_distrib)
  have wf0: "wf_image cv0"
    unfolding cv0_def drawImage_def by (rule wf_drawImageAt) simp
  from assms(3) have "0 + length ds < length images" by simp
  from drawParts_Some [OF this, of "height img0" scale "int (height img0)" cv0]
  obtain cv where cv: "drawParts images (height img0) scale ds 0 (int (height img0)) cv0 = Some cv"
    "height cv = height cv0" "iwidth cv = iwidth cv0" "wf_image cv"
    using wf0 by auto
  have "stitchCanvas innerW images ds = Some cv"
    using assms(1,2,5) cv(1) dim
    by (simp add: stitchCanvas_def Let_def scale_def cv0_def list_ex_iff)
  moreover have "height cv0 = height img0 + nat (sum_list (map (newPx scale) ds))"
    by (simp add: cv0_def drawImage_def)
  moreover have "iwidth cv0 = iwidth img0"
    by (simp add: cv0_def drawImage_def)
  ultimately show ?thesis using cv by auto
qed

lemma nth_drawImage_top:
  assumes "wf_image img" "j < height img" "height img \<le> h"
  shows "irows (drawImage img (newCanvas (iwidth img) h)) ! j = irows img ! j"
proof -
  have "irows (drawImage img (newCanvas (iwidth img) h)) ! j
        = blitRow (iwidth img) (irows img ! j) (irows (newCanvas (iwidth img) h) ! j)"
    using assms by (simp add: drawImage_def nth_drawImageAt)
  also have "\<dots> = irows img ! j"
  proof (rule blitRow_full)
    show "length (irows img ! j) = iwidth img" using assms by (simp add: wf_image_nth)
    show "length (irows (newCanvas (iwidth img) h) ! j) = iwidth img"
      using assms by (simp add: newCanvas_def)
  qed
  finally show ?thesis .
qed

text \<open>The rows of the composite: the first image on top, then, for each delta, the rows
  of the next image that the code copies, where they exist.\<close>

lemma stitchCanvas_rows:
  assumes img: "images = img0 # others" and iw: "0 < innerW" and len: "length ds < length images"
      and px: "\<forall>d \<in> set ds. 0 \<le> newPx (scaleOf (iwidth img0) innerW) d"
      and fin: "\<forall>d \<in> set ds. \<not> overflows (d * scaleOf (iwidth img0) innerW)"
      and wf: "\<forall>img \<in> set images. wf_image img \<and> iwidth img = iwidth img0"
  defines "scale \<equiv> scaleOf (iwidth img0) innerW"
  shows "\<exists>cv. stitchCanvas innerW images ds = Some cv
            \<and> iwidth cv = iwidth img0
            \<and> int (height cv) = int (height img0) + sum_list (map (newPx scale) ds)
            \<and> (\<forall>j < height img0. irows cv ! j = irows img0 ! j)
            \<and> (\<forall>m < length ds. \<forall>k. 0 \<le> k \<and> k < newPx scale (ds ! m)
                   \<and> 0 \<le> int (height img0) - newPx scale (ds ! m) + k
                   \<and> int (height img0) - newPx scale (ds ! m) + k < int (height (images ! (m + 1)))
                 \<longrightarrow> irows cv ! nat (partTop (height img0) scale ds m + k)
                     = irows (images ! (m + 1)) ! nat (int (height img0) - newPx scale (ds ! m) + k))"
proof -
  let ?H = "height img0"
  let ?tot = "sum_list (map (newPx scale) ds)"
  let ?cv0 = "drawImage img0 (newCanvas (iwidth img0) (?H + nat ?tot))"
  have nonneg: "0 \<le> ?tot" using px unfolding scale_def by (rule sum_newPx_nonneg)
  have px': "\<forall>d \<in> set ds. 0 \<le> newPx scale d" using px by (simp add: scale_def)
  from stitchCanvas_unfold [OF img iw len px fin]
  obtain cv where cv: "stitchCanvas innerW images ds = Some cv"
     "drawParts images ?H scale ds 0 (int ?H) ?cv0 = Some cv"
     "iwidth cv = iwidth img0" "height cv = ?H + nat ?tot" "wf_image cv"
    by (auto simp: scale_def)
  have wf0: "wf_image img0" using wf img by simp
  have wfcv0: "wf_image ?cv0" unfolding drawImage_def by (rule wf_drawImageAt) simp
  have hcv0: "height ?cv0 = ?H + nat ?tot" by (simp add: drawImage_def)
  have wcv0: "iwidth ?cv0 = iwidth img0" by (simp add: drawImage_def)
  have top: "\<forall>j < ?H. irows cv ! j = irows img0 ! j"
  proof (intro allI impI)
    fix j assume j: "j < ?H"
    have "irows cv ! j = irows ?cv0 ! j"
      using drawParts_above [OF px' cv(2), of j] j hcv0 by simp
    also have "\<dots> = irows img0 ! j"
      using nth_drawImage_top [OF wf0 j, of "?H + nat ?tot"] by simp
    finally show "irows cv ! j = irows img0 ! j" .
  qed
  have parts: "\<forall>m < length ds. \<forall>k. 0 \<le> k \<and> k < newPx scale (ds ! m)
                   \<and> 0 \<le> int ?H - newPx scale (ds ! m) + k
                   \<and> int ?H - newPx scale (ds ! m) + k < int (height (images ! (m + 1)))
                 \<longrightarrow> irows cv ! nat (partTop ?H scale ds m + k)
                     = irows (images ! (m + 1)) ! nat (int ?H - newPx scale (ds ! m) + k)"
  proof (intro allI impI, elim conjE)
    fix m k
    assume m: "m < length ds" and k: "0 \<le> k" "k < newPx scale (ds ! m)"
       and r: "0 \<le> int ?H - newPx scale (ds ! m) + k"
              "int ?H - newPx scale (ds ! m) + k < int (height (images ! (m + 1)))"
    have mem: "images ! (m + 1) \<in> set images" using m len by simp
    have split: "ds = take m ds @ ds ! m # drop (Suc m) ds"
      using m by (simp add: id_take_nth_drop)
    have "?tot = sum_list (map (newPx scale) (take m ds)) + newPx scale (ds ! m)
                 + sum_list (map (newPx scale) (drop (Suc m) ds))"
      by (subst split) simp
    moreover have "0 \<le> sum_list (map (newPx scale) (drop (Suc m) ds))"
      by (rule sum_newPx_nonneg) (use px' in \<open>auto dest: in_set_dropD\<close>)
    ultimately have fit: "int ?H + sum_list (map (newPx scale) (take m ds)) + k < int (height ?cv0)"
      using k nonneg hcv0 by simp
    have "irows cv ! nat (int ?H + sum_list (map (newPx scale) (take m ds)) + k)
          = irows (images ! (0 + 1 + m)) ! nat (int ?H - newPx scale (ds ! m) + k)"
      by (rule drawParts_rows [OF px' cv(2) wfcv0 m k(1) k(2)])
         (use r mem wf wcv0 fit in \<open>simp_all add: add.commute\<close>)
    then show "irows cv ! nat (partTop ?H scale ds m + k)
               = irows (images ! (m + 1)) ! nat (int ?H - newPx scale (ds ! m) + k)"
      by (simp add: partTop_def add.commute)
  qed
  show ?thesis using cv(1,3,4) nonneg top parts by (intro exI [of _ cv]) simp
qed


lemma drawImageAt_append:
  assumes rows: "irows cv = A @ B @ C" and lenA: "length A = nat y" and lenB: "length B = nat px"
      and y: "0 \<le> y" and px: "0 \<le> px" "px \<le> int (height src)"
      and wfs: "wf_image src" and wfc: "wf_image cv" and w: "iwidth src = iwidth cv"
  shows "irows (drawImageAt src (int (height src) - px) px y cv)
         = A @ bottomRows (nat px) src @ C"
proof (rule nth_equalityI)
  have lb: "length (bottomRows (nat px) src) = nat px"
    using px by (simp add: bottomRows_def height_def)
  show len: "length (irows (drawImageAt src (int (height src) - px) px y cv))
        = length (A @ bottomRows (nat px) src @ C)"
    using rows lenB lb by (simp add: drawImageAt_def Let_def height_def)
  fix j assume "j < length (irows (drawImageAt src (int (height src) - px) px y cv))"
  then have j: "j < height cv"
    by (simp add: drawImageAt_def Let_def height_def)
  show "irows (drawImageAt src (int (height src) - px) px y cv) ! j
        = (A @ bottomRows (nat px) src @ C) ! j"
  proof (cases "j < length A")
    case True
    then have "int j < y" using lenA y by simp
    then have "irows (drawImageAt src (int (height src) - px) px y cv) ! j = irows cv ! j"
      using j px by (simp add: nth_drawImageAt)
    also have "\<dots> = A ! j" using rows True by (simp add: nth_append)
    finally show ?thesis using True by (simp add: nth_append)
  next
    case False
    then have ge: "y \<le> int j" using lenA y by simp
    show ?thesis
    proof (cases "j < length A + nat px")
      case True
      let ?k = "j - length A"
      have k: "?k < nat px" using True False by simp
      have jk: "int j - y = int ?k" using False lenA y by simp
      have r: "int (height src) - px + int ?k = int (height src - nat px + ?k)"
        using px by simp
      have rlt: "height src - nat px + ?k < height src" using k px by simp
      have jlt: "int j < y + px" using True lenA y px by simp
      have "irows (drawImageAt src (int (height src) - px) px y cv) ! j
            = blitRow (iwidth cv) (irows src ! (height src - nat px + ?k)) (irows cv ! j)"
        using j px ge jlt rlt by (simp add: nth_drawImageAt jk r del: of_nat_add of_nat_diff)
      also have "\<dots> = irows src ! (height src - nat px + ?k)"
      proof (rule blitRow_full)
        show "length (irows src ! (height src - nat px + ?k)) = iwidth cv"
          using wf_image_nth [OF wfs rlt] w by simp
        show "length (irows cv ! j) = iwidth cv"
          using wf_image_nth [OF wfc j] .
      qed
      also have "\<dots> = bottomRows (nat px) src ! ?k"
        using rlt by (simp add: bottomRows_def height_def)
      also have "\<dots> = (A @ bottomRows (nat px) src @ C) ! j"
        using False k lb by (simp add: nth_append)
      finally show ?thesis .
    next
      case F2: False
      have k2: "\<not> j - length A < nat px" using False F2 by simp
      from F2 have "\<not> int j < y + px" using lenA y px by simp
      then have "irows (drawImageAt src (int (height src) - px) px y cv) ! j = irows cv ! j"
        using j px by (simp add: nth_drawImageAt)
      also have "\<dots> = (A @ B @ C) ! j" using rows by simp
      also have "\<dots> = C ! (j - length A - nat px)"
        using False k2 lenB by (simp add: nth_append)
      also have "\<dots> = (A @ bottomRows (nat px) src @ C) ! j"
        using False k2 lb by (simp add: nth_append)
      finally show ?thesis .
    qed
  qed
qed


lemma drawImageAt_irows_update:
  "(drawImageAt src sy sh dy cv)\<lparr>irows := X\<rparr> = cv\<lparr>irows := X\<rparr>"
  by (simp add: drawImageAt_def Let_def)

lemma length_bottomRows: "n \<le> height img \<Longrightarrow> length (bottomRows n img) = n"
  by (simp add: bottomRows_def height_def)

lemma drawParts_closed:
  assumes "\<forall>img \<in> set images. wf_image img \<and> iwidth img = iwidth cv \<and> height img = H"
      and "\<forall>d \<in> set ds. 0 \<le> newPx scale d \<and> newPx scale d \<le> int H"
      and "i + length ds < length images"
      and "wf_image cv" "irows cv = placed @ rest" "length placed = nat y" "0 \<le> y"
      and "length rest = nat (sum_list (map (newPx scale) ds))"
  shows "drawParts images H scale ds i y cv
         = Some (cv\<lparr>irows := placed @ concat (map2 (\<lambda>img d. bottomRows (nat (newPx scale d)) img)
                                               (drop (i + 1) images) ds)\<rparr>)"
  using assms
proof (induction ds arbitrary: i y cv placed rest)
  case Nil
  then have "cv\<lparr>irows := placed\<rparr> = cv" by simp
  then show ?case by simp
next
  case (Cons d ds)
  let ?px = "newPx scale d"
  let ?src = "images ! (i + 1)"
  let ?cv1 = "drawImageAt ?src (int H - ?px) ?px y cv"
  let ?B = "take (nat ?px) rest"
  let ?C = "drop (nat ?px) rest"
  let ?bot = "\<lambda>img d. bottomRows (nat (newPx scale d)) img"
  from Cons.prems(2) have px: "0 \<le> ?px" "?px \<le> int H"
    and rest: "\<forall>d \<in> set ds. 0 \<le> newPx scale d \<and> newPx scale d \<le> int H" by auto
  from Cons.prems(3) have i1: "i + 1 < length images" and i2: "(i + 1) + length ds < length images"
    by simp_all
  then have mem: "?src \<in> set images" by simp
  with Cons.prems(1) have src: "wf_image ?src" "iwidth ?src = iwidth cv" "height ?src = H"
    by auto
  have tot: "0 \<le> sum_list (map (newPx scale) ds)"
    by (rule sum_newPx_nonneg) (use rest in auto)
  have lenrest: "length rest = nat ?px + nat (sum_list (map (newPx scale) ds))"
    using Cons.prems(8) px tot by (simp add: nat_add_distrib)
  have lenB: "length ?B = nat ?px" using lenrest by simp
  have lenC: "length ?C = nat (sum_list (map (newPx scale) ds))" using lenrest by simp
  have rows: "irows cv = placed @ ?B @ ?C" using Cons.prems(5) by simp
  have rows1: "irows ?cv1 = placed @ bottomRows (nat ?px) ?src @ ?C"
    using drawImageAt_append [OF rows Cons.prems(6) lenB Cons.prems(7) px(1) _ src(1) Cons.prems(4) src(2)]
          px(2) src(3) by simp
  have rows1': "irows ?cv1 = (placed @ bottomRows (nat ?px) ?src) @ ?C"
    using rows1 by simp
  have lenp: "length (placed @ bottomRows (nat ?px) ?src) = nat (y + ?px)"
    using Cons.prems(6,7) px src(3) by (simp add: length_bottomRows nat_add_distrib)
  have wf1: "wf_image ?cv1" using Cons.prems(4) by (rule wf_drawImageAt)
  have imgs1: "\<forall>img \<in> set images. wf_image img \<and> iwidth img = iwidth ?cv1 \<and> height img = H"
    using Cons.prems(1) by simp
  have y1: "0 \<le> y + ?px" using Cons.prems(7) px by simp
  have "drawParts images H scale (d # ds) i y cv
        = drawParts images H scale ds (i + 1) (y + ?px) ?cv1"
    using i1 by (simp add: Let_def)
  also have "\<dots> = Some (?cv1\<lparr>irows := (placed @ bottomRows (nat ?px) ?src)
                         @ concat (map2 ?bot (drop ((i + 1) + 1) images) ds)\<rparr>)"
    by (rule Cons.IH [OF imgs1 rest i2 wf1 rows1' lenp y1 lenC])
  also have "\<dots> = Some (cv\<lparr>irows := placed @ concat (map2 ?bot (drop (i + 1) images) (d # ds))\<rparr>)"
  proof -
    have "drop (i + 1) images = ?src # drop ((i + 1) + 1) images"
      using i1 by (simp add: Cons_nth_drop_Suc)
    then show ?thesis by (simp add: drawImageAt_irows_update)
  qed
  finally show ?case .
qed

lemma stitchCanvas_closed:
  assumes img: "images \<noteq> []" and iw: "0 < innerW" and len: "length ds < length images"
      and wf: "\<forall>img \<in> set images. wf_image img \<and> iwidth img = iwidth (hd images)
                 \<and> height img = height (hd images)"
      and px: "\<forall>d \<in> set ds. 0 \<le> newPx (scaleOf (iwidth (hd images)) innerW) d
                 \<and> newPx (scaleOf (iwidth (hd images)) innerW) d
                    \<le> int (height (hd images))"
      and fin: "\<forall>d \<in> set ds. \<not> overflows (d * scaleOf (iwidth (hd images)) innerW)"
  shows "stitchCanvas innerW images ds = Some (spec_stitch innerW images ds)"
proof -
  from img obtain img0 others where images: "images = img0 # others"
    by (cases images) auto
  let ?scale = "scaleOf (iwidth img0) innerW"
  let ?H = "height img0"
  let ?tot = "sum_list (map (newPx ?scale) ds)"
  let ?blank = "replicate (iwidth img0) (0::pixel)"
  let ?canvas = "newCanvas (iwidth img0) (?H + nat ?tot)"
  let ?cv0 = "drawImage img0 ?canvas"
  let ?bot = "\<lambda>img d. bottomRows (nat (newPx ?scale d)) img"
  have px': "\<forall>d \<in> set ds. 0 \<le> newPx ?scale d \<and> newPx ?scale d \<le> int ?H"
    using px images by simp
  have nonneg: "0 \<le> ?tot" by (rule sum_newPx_nonneg) (use px' in auto)
  have dim: "canvasDim (int ?H + ?tot) = ?H + nat ?tot"
    using nonneg by (simp add: canvasDim_def nat_add_distrib)
  have wf0: "wf_image img0" using wf images by simp
  have rowsc: "irows ?canvas = [] @ replicate ?H ?blank @ replicate (nat ?tot) ?blank"
    by (simp add: newCanvas_def replicate_add)
  have "irows (drawImageAt img0 (int (height img0) - int ?H) (int ?H) 0 ?canvas)
        = [] @ bottomRows (nat (int ?H)) img0 @ replicate (nat ?tot) ?blank"
    by (rule drawImageAt_append [OF rowsc]) (use wf0 in simp_all)
  then have rows0: "irows ?cv0 = irows img0 @ replicate (nat ?tot) ?blank"
    by (simp add: drawImage_def bottomRows_def)
  have wfcv0: "wf_image ?cv0" unfolding drawImage_def by (rule wf_drawImageAt) simp
  have w0: "iwidth ?cv0 = iwidth img0" by (simp add: drawImage_def)
  have imgs: "\<forall>img \<in> set images. wf_image img \<and> iwidth img = iwidth ?cv0 \<and> height img = ?H"
    using wf images w0 by simp
  have "drawParts images ?H ?scale ds 0 (int ?H) ?cv0
        = Some (?cv0\<lparr>irows := irows img0 @ concat (map2 ?bot (drop (0 + 1) images) ds)\<rparr>)"
    by (rule drawParts_closed [OF imgs px' _ wfcv0 rows0])
       (use len in \<open>simp_all add: height_def\<close>)
  moreover have "?cv0\<lparr>irows := irows img0 @ concat (map2 ?bot (drop (0 + 1) images) ds)\<rparr>
                 = spec_stitch innerW images ds"
    using images by (simp add: spec_stitch_def drawImage_def drawImageAt_irows_update newCanvas_def)
  ultimately show ?thesis
    using images iw dim fin by (simp add: stitchCanvas_def Let_def list_ex_iff)
qed


lemma stitchCanvas_height:
  assumes "images = img0 # others" "0 < innerW" "length ds < length images"
      and "0 \<le> int (height img0)
               + sum_list (map (newPx (scaleOf (iwidth img0) innerW)) ds)"
      and "\<forall>d \<in> set ds. \<not> overflows (d * scaleOf (iwidth img0) innerW)"
  shows "\<exists>cv. stitchCanvas innerW images ds = Some cv \<and> iwidth cv = iwidth img0
            \<and> int (height cv)
               = int (height img0)
                 + sum_list (map (newPx (scaleOf (iwidth img0) innerW)) ds)"
proof -
  let ?scale = "scaleOf (iwidth img0) innerW"
  let ?tot = "int (height img0) + sum_list (map (newPx ?scale) ds)"
  let ?cv0 = "drawImage img0 (newCanvas (iwidth img0) (nat ?tot))"
  have dim: "canvasDim ?tot = nat ?tot" using assms(4) by (simp add: canvasDim_def)
  from assms(3) have "0 + length ds < length images" by simp
  from drawParts_Some [OF this, of "height img0" ?scale "int (height img0)" ?cv0]
  obtain cv where cv: "drawParts images (height img0) ?scale ds 0 (int (height img0)) ?cv0 = Some cv"
    "height cv = height ?cv0" "iwidth cv = iwidth ?cv0"
    by auto
  have "stitchCanvas innerW images ds = Some cv"
    using assms(1,2,5) cv(1) dim by (simp add: stitchCanvas_def Let_def list_ex_iff)
  moreover have "int (height cv) = ?tot"
    using cv(2) assms(4) by (simp add: drawImage_def)
  moreover have "iwidth cv = iwidth img0"
    using cv(3) by (simp add: drawImage_def)
  ultimately show ?thesis by blast
qed

lemma stitchCanvas_single:
  assumes "wf_image img"
  shows "stitchCanvas innerW [img] [] = Some img"
proof -
  let ?canvas = "newCanvas (iwidth img) (height img)"
  have rowsc: "irows ?canvas = [] @ replicate (height img) (replicate (iwidth img) 0) @ []"
    by (simp add: newCanvas_def)
  have "irows (drawImageAt img (int (height img) - int (height img)) (int (height img)) 0 ?canvas)
        = [] @ bottomRows (nat (int (height img))) img @ []"
    by (rule drawImageAt_append [OF rowsc]) (use assms in simp_all)
  then have "irows (drawImage img ?canvas) = irows img"
    by (simp add: drawImage_def bottomRows_def)
  moreover have "iwidth (drawImage img ?canvas) = iwidth img"
    by (simp add: drawImage_def)
  ultimately have "drawImage img ?canvas = img"
    by (cases img, cases "drawImage img ?canvas") simp
  then show ?thesis
    by (simp add: stitchCanvas_def Let_def canvasDim_def)
qed


text \<open>The rounding at known doubles: 0.1 is \<open>3602879701896397 / 2^55\<close>, and integers and
  halves of small integers are doubles themselves.\<close>

lemma roundDouble_examples:
  "roundDouble (1 / 10) = 3602879701896397 / 36028797018963968"
  "roundDouble 3 = 3"
  "roundDouble (3 / 2) = 3 / 2"
  "roundDouble (- (1 / 3)) = - (6004799503160661 / 18014398509481984)"
  by code_simp+

text \<open>Near a half the double arithmetic decides: \<open>1 / 98\<close> and then \<open>49 * (1 / 98)\<close> are
  rounded to doubles, the product is \<open>0.49999999999999994\<close>, and \<open>Math.round\<close> gives 0,
  where the exact product \<open>1 / 2\<close> would give 1.\<close>

lemma newPx_near_half:
  "newPx (scaleOf 1 98) 49 = 0 \<and> jsRound (49 * (1 / 98)) = 1"
  by code_simp

lemma nth_bottomRows:
  "n \<le> height img \<Longrightarrow> k < n \<Longrightarrow> bottomRows n img ! k = irows img ! (height img - n + k)"
  by (simp add: bottomRows_def height_def)

text \<open>The function on several captures of one size: it returns the encoding of the
  composite, and the rows of every appended block are the bottom rows of its image.\<close>

lemma stitchScreenshots_equal_size:
  assumes dec: "map (decode e) urls = map Some images" and ne: "images \<noteq> []"
      and iw: "0 < innerWidth e" and len: "length ds < length images"
      and wf: "\<forall>img \<in> set images. wf_image img \<and> iwidth img = iwidth (hd images)
                 \<and> height img = height (hd images)"
      and px: "\<forall>d \<in> set ds. 0 \<le> newPx (scaleOf (iwidth (hd images)) (innerWidth e)) d
                 \<and> newPx (scaleOf (iwidth (hd images)) (innerWidth e)) d
                    \<le> int (height (hd images))"
      and fin: "\<forall>d \<in> set ds. \<not> overflows (d * scaleOf (iwidth (hd images)) (innerWidth e))"
  shows "stitchScreenshots e urls ds
         = Some (toDataURL e (spec_stitch (innerWidth e) images ds))"
proof -
  have none: "\<not> list_ex (\<lambda>d. d = None) (map (decode e) urls)"
    unfolding dec by (simp add: list_ex_iff)
  have the: "map the (map (decode e) urls) = images"
    unfolding dec by (simp add: comp_def)
  from stitchCanvas_closed [OF ne iw len wf px fin] none the
  show ?thesis by (simp add: stitchScreenshots_def Let_def)
qed

lemma stitchCanvas_joins:
  assumes ne: "images \<noteq> []" and iw: "0 < innerW" and len: "length ds < length images"
      and wf: "\<forall>img \<in> set images. wf_image img \<and> iwidth img = iwidth (hd images)
                 \<and> height img = height (hd images)"
      and px: "\<forall>d \<in> set ds. 0 \<le> newPx (scaleOf (iwidth (hd images)) innerW) d
                 \<and> newPx (scaleOf (iwidth (hd images)) innerW) d
                    \<le> int (height (hd images))"
      and fin: "\<forall>d \<in> set ds. \<not> overflows (d * scaleOf (iwidth (hd images)) innerW)"
  shows "\<exists>cv. stitchCanvas innerW images ds = Some cv
            \<and> (\<forall>j < height (hd images). irows cv ! j = irows (hd images) ! j)
            \<and> (\<forall>m < length ds.
                 \<forall>k < nat (newPx (scaleOf (iwidth (hd images)) innerW) (ds ! m)).
                  irows cv ! (nat (partTop (height (hd images))
                                     (scaleOf (iwidth (hd images)) innerW) ds m) + k)
                  = bottomRows (nat (newPx (scaleOf (iwidth (hd images)) innerW) (ds ! m)))
                      (images ! (m + 1)) ! k)"
proof -
  from ne obtain img0 others where images: "images = img0 # others"
    by (cases images) auto
  then have hd: "hd images = img0" by simp
  let ?H = "height img0"
  let ?scale = "scaleOf (iwidth img0) innerW"
  have px0: "\<forall>d \<in> set ds. 0 \<le> newPx ?scale d"
    using px hd by simp
  have px1: "\<forall>d \<in> set ds. newPx ?scale d \<le> int ?H"
    using px hd by simp
  have fin0: "\<forall>d \<in> set ds. \<not> overflows (d * ?scale)"
    using fin hd by simp
  have wf0: "\<forall>img \<in> set images. wf_image img \<and> iwidth img = iwidth img0"
    using wf hd by simp
  have hts: "\<forall>img \<in> set images. height img = ?H"
    using wf hd by simp
  from stitchCanvas_rows [OF images iw len px0 fin0 wf0]
  obtain cv where cv: "stitchCanvas innerW images ds = Some cv"
    and top: "\<forall>j < ?H. irows cv ! j = irows img0 ! j"
    and parts: "\<forall>m < length ds. \<forall>k. 0 \<le> k \<and> k < newPx ?scale (ds ! m)
                   \<and> 0 \<le> int ?H - newPx ?scale (ds ! m) + k
                   \<and> int ?H - newPx ?scale (ds ! m) + k < int (height (images ! (m + 1)))
                 \<longrightarrow> irows cv ! nat (partTop ?H ?scale ds m + k)
                     = irows (images ! (m + 1)) ! nat (int ?H - newPx ?scale (ds ! m) + k)"
    by blast
  have joins: "\<forall>m < length ds. \<forall>k < nat (newPx ?scale (ds ! m)).
                  irows cv ! (nat (partTop ?H ?scale ds m) + k)
                  = bottomRows (nat (newPx ?scale (ds ! m))) (images ! (m + 1)) ! k"
  proof (intro allI impI)
    fix m k
    assume m: "m < length ds" and k: "k < nat (newPx ?scale (ds ! m))"
    let ?px = "newPx ?scale (ds ! m)"
    let ?img = "images ! (m + 1)"
    have mem: "?img \<in> set images" using m len by simp
    with hts have h: "height ?img = ?H" by blast
    have dm: "ds ! m \<in> set ds" using m by simp
    with px0 px1 have pxm: "0 \<le> ?px" "?px \<le> int ?H" by blast+
    have "\<forall>d \<in> set (take m ds). 0 \<le> newPx ?scale d"
      using px0 by (auto dest: in_set_takeD)
    then have "0 \<le> sum_list (map (newPx ?scale) (take m ds))"
      by (rule sum_newPx_nonneg)
    then have top0: "0 \<le> partTop ?H ?scale ds m"
      by (simp add: partTop_def)
    have hyp: "0 \<le> int k \<and> int k < ?px \<and> 0 \<le> int ?H - ?px + int k
               \<and> int ?H - ?px + int k < int (height ?img)"
      using k pxm h by simp
    from parts m have "\<forall>k. 0 \<le> k \<and> k < ?px
                   \<and> 0 \<le> int ?H - ?px + k
                   \<and> int ?H - ?px + k < int (height ?img)
                 \<longrightarrow> irows cv ! nat (partTop ?H ?scale ds m + k)
                     = irows ?img ! nat (int ?H - ?px + k)"
      by blast
    with hyp have "irows cv ! nat (partTop ?H ?scale ds m + int k)
          = irows ?img ! nat (int ?H - ?px + int k)"
      by blast
    moreover have "nat (partTop ?H ?scale ds m + int k) = nat (partTop ?H ?scale ds m) + k"
      using top0 by (simp add: nat_add_distrib)
    moreover have "nat (int ?H - ?px + int k) = height ?img - nat ?px + k"
      using pxm h k by linarith
    moreover have "bottomRows (nat ?px) ?img ! k = irows ?img ! (height ?img - nat ?px + k)"
      using pxm h k by (intro nth_bottomRows) simp_all
    ultimately show "irows cv ! (nat (partTop ?H ?scale ds m) + k)
                     = bottomRows (nat ?px) ?img ! k"
      by simp
  qed
  show ?thesis
    unfolding hd using cv top joins by blast
qed

text \<open>C3 fails on the code when the captures differ in height: two images of equal width,
  one delta of one row. The second image is taller than the first, and the code measures
  the rows to copy from the height of the first image (\<open>srcY = imgHeight - newPx\<close>): it
  appends row 1 of the second image, not its bottom row.\<close>

theorem C3_unequal_heights:
  "iwidth imgShort = iwidth imgTall
   \<and> length [1 :: rat] = length [imgShort, imgTall] - 1
   \<and> newPx (scaleOf (iwidth imgShort) 1) 1 = 1
   \<and> bottomRows 1 imgTall = [[5]]
   \<and> stitchCanvas 1 [imgShort, imgTall] [1] = Some \<lparr>iwidth = 1, irows = [[1], [2], [4]]\<rparr>
   \<and> spec_stitch 1 [imgShort, imgTall] [1] = \<lparr>iwidth = 1, irows = [[1], [2], [5]]\<rparr>"
proof -
  have "stitchCanvas 1 [imgShort, imgTall] [1] = Some \<lparr>iwidth = 1, irows = [[1], [2], [4]]\<rparr>"
    by code_simp
  moreover have "spec_stitch 1 [imgShort, imgTall] [1] = \<lparr>iwidth = 1, irows = [[1], [2], [5]]\<rparr>"
    by code_simp
  moreover have "iwidth imgShort = iwidth imgTall"
    by (simp add: imgShort_def imgTall_def)
  moreover have "newPx (scaleOf (iwidth imgShort) 1) 1 = 1"
    by code_simp
  moreover have "bottomRows 1 imgTall = [[5]]"
    by code_simp
  ultimately show ?thesis by simp
qed

text \<open>C4, as stated, fails in its first part: the stitcher returns the canvas encoded
  anew as JPEG, not the data it was given. Here the browser decodes \<open>data:first\<close> and
  encodes every canvas as \<open>data:image/jpeg;base64,\<close>.\<close>

theorem C4_counterexample:
  "stitchScreenshots envCodec [''data:first''] [] = Some ''data:image/jpeg;base64,''
   \<and> ''data:image/jpeg;base64,'' \<noteq> ''data:first''"
  by code_simp

text \<open>C4, amended. A capture that consists of a single part is not stitched:
  \<open>captureAndSave\<close> saves the part as it is. The stitcher itself, given a single image and
  no deltas, leaves exactly that image on the canvas, whatever the viewport width, and
  returns the encoding of the canvas. Given several captures of one width and one height,
  with every \<open>round(delta * scale)\<close> between 0 and that height, it returns the encoding of
  the composite: the rows of the first image are on top unchanged, and the block appended
  for delta \<open>m\<close>, which starts at row \<open>partTop m\<close>, consists of the bottom
  \<open>round(delta * scale)\<close> rows of image \<open>m + 1\<close>, row for row; these are in particular the
  rows on both sides of every join. Captures of different heights are left out.\<close>

theorem C4_stitch_amended:
  "(wf_image img \<longrightarrow> stitchCanvas innerW [img] [] = Some img)
   \<and> (decode e u = Some img \<and> wf_image img \<longrightarrow>
        stitchScreenshots e [u] [] = Some (toDataURL e img))
   \<and> saveParts e folder base [u] scrollDeltas s = saveToZip folder (base @ ''.jpg'') u True s
   \<and> (map (decode e) urls = map Some images \<and> images \<noteq> [] \<and> 0 < innerWidth e
        \<and> length ds < length images
        \<and> (\<forall>img \<in> set images. wf_image img \<and> iwidth img = iwidth (hd images)
                                 \<and> height img = height (hd images))
        \<and> (\<forall>d \<in> set ds.
               0 \<le> newPx (scaleOf (iwidth (hd images)) (innerWidth e)) d
               \<and> newPx (scaleOf (iwidth (hd images)) (innerWidth e)) d
                  \<le> int (height (hd images))
               \<and> \<not> overflows (d * scaleOf (iwidth (hd images)) (innerWidth e))) \<longrightarrow>
        stitchScreenshots e urls ds
          = Some (toDataURL e (spec_stitch (innerWidth e) images ds))
        \<and> (\<exists>cv. stitchCanvas (innerWidth e) images ds = Some cv
              \<and> cv = spec_stitch (innerWidth e) images ds
              \<and> (\<forall>j < height (hd images). irows cv ! j = irows (hd images) ! j)
              \<and> (\<forall>m < length ds.
                   \<forall>k < nat (newPx (scaleOf (iwidth (hd images)) (innerWidth e)) (ds ! m)).
                     irows cv ! (nat (partTop (height (hd images))
                                        (scaleOf (iwidth (hd images)) (innerWidth e)) ds m) + k)
                     = bottomRows (nat (newPx (scaleOf (iwidth (hd images)) (innerWidth e))
                                          (ds ! m)))
                         (images ! (m + 1)) ! k)))"
proof -
  have a: "wf_image img \<longrightarrow> stitchCanvas innerW [img] [] = Some img"
    using stitchCanvas_single by blast
  have b: "decode e u = Some img \<and> wf_image img \<longrightarrow>
        stitchScreenshots e [u] [] = Some (toDataURL e img)"
    by (simp add: stitchScreenshots_def stitchCanvas_single)
  have c: "saveParts e folder base [u] scrollDeltas s = saveToZip folder (base @ ''.jpg'') u True s"
    by (simp add: saveParts_def)
  have d: "map (decode e) urls = map Some images \<and> images \<noteq> [] \<and> 0 < innerWidth e
        \<and> length ds < length images
        \<and> (\<forall>img \<in> set images. wf_image img \<and> iwidth img = iwidth (hd images)
                                 \<and> height img = height (hd images))
        \<and> (\<forall>d \<in> set ds.
               0 \<le> newPx (scaleOf (iwidth (hd images)) (innerWidth e)) d
               \<and> newPx (scaleOf (iwidth (hd images)) (innerWidth e)) d
                  \<le> int (height (hd images))
               \<and> \<not> overflows (d * scaleOf (iwidth (hd images)) (innerWidth e))) \<longrightarrow>
        stitchScreenshots e urls ds
          = Some (toDataURL e (spec_stitch (innerWidth e) images ds))
        \<and> (\<exists>cv. stitchCanvas (innerWidth e) images ds = Some cv
              \<and> cv = spec_stitch (innerWidth e) images ds
              \<and> (\<forall>j < height (hd images). irows cv ! j = irows (hd images) ! j)
              \<and> (\<forall>m < length ds.
                   \<forall>k < nat (newPx (scaleOf (iwidth (hd images)) (innerWidth e)) (ds ! m)).
                     irows cv ! (nat (partTop (height (hd images))
                                        (scaleOf (iwidth (hd images)) (innerWidth e)) ds m) + k)
                     = bottomRows (nat (newPx (scaleOf (iwidth (hd images)) (innerWidth e))
                                          (ds ! m)))
                         (images ! (m + 1)) ! k))"
  proof (intro impI, elim conjE)
    assume dec: "map (decode e) urls = map Some images" and ne: "images \<noteq> []"
      and iw: "0 < innerWidth e" and len: "length ds < length images"
      and wf: "\<forall>img \<in> set images. wf_image img \<and> iwidth img = iwidth (hd images)
                 \<and> height img = height (hd images)"
      and all: "\<forall>d \<in> set ds.
               0 \<le> newPx (scaleOf (iwidth (hd images)) (innerWidth e)) d
               \<and> newPx (scaleOf (iwidth (hd images)) (innerWidth e)) d
                  \<le> int (height (hd images))
               \<and> \<not> overflows (d * scaleOf (iwidth (hd images)) (innerWidth e))"
    from all have px: "\<forall>d \<in> set ds.
               0 \<le> newPx (scaleOf (iwidth (hd images)) (innerWidth e)) d
               \<and> newPx (scaleOf (iwidth (hd images)) (innerWidth e)) d
                  \<le> int (height (hd images))"
      and fin: "\<forall>d \<in> set ds. \<not> overflows (d * scaleOf (iwidth (hd images)) (innerWidth e))"
      by blast+
    note enc = stitchScreenshots_equal_size [OF dec ne iw len wf px fin]
    note closed = stitchCanvas_closed [OF ne iw len wf px fin]
    from stitchCanvas_joins [OF ne iw len wf px fin] closed enc
    show "stitchScreenshots e urls ds
          = Some (toDataURL e (spec_stitch (innerWidth e) images ds))
        \<and> (\<exists>cv. stitchCanvas (innerWidth e) images ds = Some cv
              \<and> cv = spec_stitch (innerWidth e) images ds
              \<and> (\<forall>j < height (hd images). irows cv ! j = irows (hd images) ! j)
              \<and> (\<forall>m < length ds.
                   \<forall>k < nat (newPx (scaleOf (iwidth (hd images)) (innerWidth e)) (ds ! m)).
                     irows cv ! (nat (partTop (height (hd images))
                                        (scaleOf (iwidth (hd images)) (innerWidth e)) ds m) + k)
                     = bottomRows (nat (newPx (scaleOf (iwidth (hd images)) (innerWidth e))
                                          (ds ! m)))
                         (images ! (m + 1)) ! k))"
      by auto
  qed
  from a b c d show ?thesis by (intro conjI)
qed

theorem C4_stitch_amended_witness:
  "stitchCanvas 4 [imgFirst] [] = Some imgFirst
   \<and> stitchScreenshots envCodec [''data:first''] [] = Some (toDataURL envCodec imgFirst)
   \<and> newPx (scaleOf 2 4) 3 = 2
   \<and> stitchScreenshots envCodec [''data:first'', ''data:second''] [3]
       = Some (toDataURL envCodec \<lparr>iwidth = 2, irows = [[1, 1], [2, 2], [3, 3], [4, 4], [5, 5]]\<rparr>)
   \<and> stitchCanvas 4 [imgFirst, imgSecond] [3]
       = Some \<lparr>iwidth = 2, irows = [[1, 1], [2, 2], [3, 3], [4, 4], [5, 5]]\<rparr>
   \<and> bottomRows 2 imgSecond = [[4, 4], [5, 5]]"
proof -
  have px: "newPx (scaleOf 2 4) 3 = 2"
    by code_simp
  have fin: "\<not> overflows (3 * scaleOf 2 4)"
    by code_simp
  have h: "height imgFirst = 3" "height imgSecond = 3"
    by (simp_all add: height_def imgFirst_def imgSecond_def)
  have w: "iwidth imgFirst = 2" "iwidth imgSecond = 2"
    by (simp_all add: imgFirst_def imgSecond_def)
  have wf: "wf_image imgFirst" "wf_image imgSecond"
    by (simp_all add: wf_image_def imgFirst_def imgSecond_def)
  have dec: "decode envCodec ''data:first'' = Some imgFirst"
    "map (decode envCodec) [''data:first'', ''data:second''] = map Some [imgFirst, imgSecond]"
    by (simp_all add: envCodec_def env0_def)
  have iw: "innerWidth envCodec = 4"
    by (simp add: envCodec_def env0_def)
  note inst = C4_stitch_amended
               [where img = imgFirst and innerW = 4 and e = envCodec and u = "''data:first''"
                  and urls = "[''data:first'', ''data:second'']"
                  and images = "[imgFirst, imgSecond]" and ds = "[3]"]
  from inst wf(1) have a: "stitchCanvas 4 [imgFirst] [] = Some imgFirst"
    by blast
  from inst wf(1) dec(1)
  have b: "stitchScreenshots envCodec [''data:first''] [] = Some (toDataURL envCodec imgFirst)"
    by blast
  have hyp: "map (decode envCodec) [''data:first'', ''data:second''] = map Some [imgFirst, imgSecond]
        \<and> [imgFirst, imgSecond] \<noteq> [] \<and> 0 < innerWidth envCodec
        \<and> length [3 :: rat] < length [imgFirst, imgSecond]
        \<and> (\<forall>img \<in> set [imgFirst, imgSecond]. wf_image img
               \<and> iwidth img = iwidth (hd [imgFirst, imgSecond])
               \<and> height img = height (hd [imgFirst, imgSecond]))
        \<and> (\<forall>d \<in> set [3 :: rat].
               0 \<le> newPx (scaleOf (iwidth (hd [imgFirst, imgSecond])) (innerWidth envCodec)) d
               \<and> newPx (scaleOf (iwidth (hd [imgFirst, imgSecond])) (innerWidth envCodec)) d
                  \<le> int (height (hd [imgFirst, imgSecond]))
               \<and> \<not> overflows (d * scaleOf (iwidth (hd [imgFirst, imgSecond]))
                                      (innerWidth envCodec)))"
    using px fin h w wf dec(2) iw by simp
  from inst hyp
  have enc: "stitchScreenshots envCodec [''data:first'', ''data:second''] [3]
             = Some (toDataURL envCodec (spec_stitch (innerWidth envCodec) [imgFirst, imgSecond] [3]))"
    and cv: "stitchCanvas (innerWidth envCodec) [imgFirst, imgSecond] [3]
             = Some (spec_stitch (innerWidth envCodec) [imgFirst, imgSecond] [3])"
    by blast+
  have bot: "bottomRows 2 imgSecond = [[4, 4], [5, 5]]"
    by (simp add: bottomRows_def height_def imgSecond_def)
  have spec: "spec_stitch 4 [imgFirst, imgSecond] [3]
              = \<lparr>iwidth = 2, irows = [[1, 1], [2, 2], [3, 3], [4, 4], [5, 5]]\<rparr>"
    using px w bot by (simp add: spec_stitch_def) (simp add: imgFirst_def)
  from a b px enc cv bot spec iw show ?thesis by simp
qed
section \<open>Properties of the profile cycle: restoring the original profiles\<close>


lemma applySet_other: "r \<noteq> sel \<Longrightarrow> selects (applySet e sel v s) r = selects s r"
  by (simp add: applySet_def)

lemma applySet_accepted:
  "accepts e sel v (clock s) \<Longrightarrow> svalue (selects (applySet e sel v s) sel) = v"
  by (simp add: applySet_def)

lemma setAttempts_other:
  "r \<noteq> sel \<Longrightarrow> selects (snd (setAttempts e sel v retries attempt s)) r = selects s r"
proof (induction e sel v retries attempt s rule: setAttempts.induct)
  case (1 e sel v retries attempt s)
  let ?s1 = "case selector (selects s sel) of Some q \<Rightarrow> send (SetSelectValue q v) s | None \<Rightarrow> s"
  let ?s2 = "sleep 500 (applySet e sel v ?s1)"
  have s1: "selects ?s1 = selects s" by (simp add: state_defs split: option.splits)
  have s2: "selects ?s2 r = selects s r"
    using "1.prems" s1 by (simp add: sleep_def applySet_other)
  show ?case
  proof (cases "attempt \<le> retries")
    case False
    then show ?thesis by (subst setAttempts.simps) simp
  next
    case True
    show ?thesis
    proof (cases "svalue (selects ?s2 sel) = v")
      case T: True
      with True s2 show ?thesis by (subst setAttempts.simps) (simp add: Let_def)
    next
      case F: False
      from "1.IH" [OF True refl refl F "1.prems"]
      have "selects (snd (setAttempts e sel v retries (attempt + 1) (sleep 500 ?s2))) r
            = selects (sleep 500 ?s2) r" .
      also have "\<dots> = selects s r" using s2 by (simp add: sleep_def)
      finally show ?thesis using True F by (subst setAttempts.simps) (simp add: Let_def)
    qed
  qed
qed

lemma setAttempts_accepted:
  assumes "\<forall>t. accepts e sel v t" "attempt \<le> retries"
  shows "fst (setAttempts e sel v retries attempt s)
         \<and> svalue (selects (snd (setAttempts e sel v retries attempt s)) sel) = v"
proof -
  let ?s1 = "case selector (selects s sel) of Some q \<Rightarrow> send (SetSelectValue q v) s | None \<Rightarrow> s"
  let ?s2 = "sleep 500 (applySet e sel v ?s1)"
  have "svalue (selects ?s2 sel) = v"
    using assms(1) by (simp add: sleep_def applySet_accepted)
  then show ?thesis
    using assms(2) by (subst (1 2) setAttempts.simps) (simp add: Let_def)
qed

lemma setSelectValueVerified_other:
  "r \<noteq> sel \<Longrightarrow> selects (snd (setSelectValueVerified e sel v s)) r = selects s r"
  by (simp add: setSelectValueVerified_def setAttempts_other)

lemma setSelectValueVerified_accepted:
  "\<forall>t. accepts e sel v t \<Longrightarrow>
   svalue (selects (snd (setSelectValueVerified e sel v s)) sel) = v"
  by (simp add: setSelectValueVerified_def setAttempts_accepted)

lemma selects_sleep [simp]: "selects (sleep ms s) = selects s"
  by (simp add: sleep_def)

lemma selects_setStatus [simp]: "selects (setStatus m s) = selects s"
  by (simp add: state_defs)

lemma restoreProfiles_pid_only:
  assumes "\<forall>t. accepts e pidSel originalPid t"
  shows "svalue (selects (restoreProfiles e pidSel originalPid None originalRate s) pidSel)
         = originalPid"
  using assms by (simp add: restoreProfiles_def Let_def setSelectValueVerified_accepted)

lemma restoreProfiles_both:
  assumes pid: "\<forall>t. accepts e pidSel originalPid t"
      and rate: "\<forall>t. accepts e r originalRate t"
      and same: "r = pidSel \<longrightarrow> originalRate = originalPid"
  shows "svalue (selects (restoreProfiles e pidSel originalPid (Some r) (Some originalRate) s) pidSel)
           = originalPid
       \<and> svalue (selects (restoreProfiles e pidSel originalPid (Some r) (Some originalRate) s) r)
           = originalRate"
proof -
  let ?s2 = "sleep 1000 (snd (setSelectValueVerified e pidSel originalPid
                                (setStatus ''Restoring original profiles...'' s)))"
  let ?s3 = "snd (setSelectValueVerified e r originalRate ?s2)"
  have res: "restoreProfiles e pidSel originalPid (Some r) (Some originalRate) s = sleep 1000 ?s3"
    by (simp add: restoreProfiles_def Let_def)
  have p2: "svalue (selects ?s2 pidSel) = originalPid"
    using pid by (simp add: setSelectValueVerified_accepted)
  have r3: "svalue (selects ?s3 r) = originalRate"
    using rate by (rule setSelectValueVerified_accepted)
  have p3: "svalue (selects ?s3 pidSel) = originalPid"
  proof (cases "r = pidSel")
    case True
    with r3 same show ?thesis by simp
  next
    case False
    then have "selects ?s3 pidSel = selects ?s2 pidSel"
      by (intro setSelectValueVerified_other) simp
    with p2 show ?thesis by simp
  qed
  from p3 r3 show ?thesis unfolding res by simp
qed

lemma bindR_Ok_elim:
  assumes "bindR m f = Some (Ok y s')"
  obtains x s1 where "m = Some (Ok x s1)" "f x s1 = Some (Ok y s')"
  using assms by (auto simp: bindR_def split: option.splits res.splits)

lemma handlePidTuningTab_ends_with_restore:
  assumes cyc: "pidSelect e = Some pidSel" "1 < length (soptions (selects s pidSel))"
      and run: "handlePidTuningTab e folder pfx s = Some (Ok () s')"
  shows "\<exists>s3. s' = restoreProfiles e pidSel (svalue (selects s pidSel)) (rateSelect e)
                      (map_option (\<lambda>r. svalue (selects s r)) (rateSelect e)) s3"
  using run cyc unfolding handlePidTuningTab_def Let_def
  by (auto elim!: bindR_Ok_elim)


subsection \<open>Runs on a page that needs no scrolling and is not stopped\<close>

lemma captureAttempts_selects:
  "selects (snd (captureAttempts e attempt s)) = selects s"
proof (induction e attempt s rule: captureAttempts.induct)
  case (1 e attempt s)
  let ?s1 = "send CaptureTab (s\<lparr>lastCaptureTime := clock s\<rparr>)"
  show ?case
  proof (cases "attempt < 3")
    case False
    then show ?thesis by (subst captureAttempts.simps) simp
  next
    case True
    show ?thesis
    proof (cases "attemptResult (captureTab e (clock s))")
      case (Some u)
      with True show ?thesis
        by (subst captureAttempts.simps) (simp add: Let_def state_defs)
    next
      case None
      from "1.IH" [OF True refl None]
      have "selects (snd (captureAttempts e (attempt + 1) (sleep (1500 * (attempt + 1)) ?s1)))
            = selects (sleep (1500 * (attempt + 1)) ?s1)" .
      with True None show ?thesis
        by (subst captureAttempts.simps) (simp add: Let_def state_defs)
    qed
  qed
qed

lemma requestScreenshot_selects:
  "selects (snd (requestScreenshot e s)) = selects s"
  by (simp add: requestScreenshot_def captureAttempts_selects)

lemma captureAndSave_fits:
  assumes fit: "\<forall>t. int (fst (layout e t)) - int (snd (layout e t)) \<le> 100"
  shows "\<exists>s'. captureAndSave e folder name s = Some (Ok () s') \<and> selects s' = selects s"
proof -
  let ?s0 = "sleep 300 (s\<lparr>scrollTop := 0\<rparr>)"
  obtain r s1 where rs: "requestScreenshot e ?s0 = (r, s1)"
    by (cases "requestScreenshot e ?s0")
  with requestScreenshot_selects [of e ?s0] have "selects s1 = selects s"
    by (simp add: sleep_def)
  with rs fit show ?thesis
    by (cases r) (simp_all add: captureAndSave_def Let_def saveToZip_def send_def)
qed

lemma setAttempts_frame:
  assumes "\<And>s. P (applySet e sel v s) = P s"
      and "\<And>ms s. P (sleep ms s) = P s"
      and "\<And>m s. P (send m s) = P s"
  shows "P (snd (setAttempts e sel v retries attempt s)) = P s"
  using assms
proof (induction e sel v retries attempt s rule: setAttempts.induct)
  case (1 e sel v retries attempt s)
  let ?s1 = "case selector (selects s sel) of Some q \<Rightarrow> send (SetSelectValue q v) s | None \<Rightarrow> s"
  let ?s2 = "sleep 500 (applySet e sel v ?s1)"
  have s1: "P ?s1 = P s" using "1.prems"(3) by (simp split: option.splits)
  have s2: "P ?s2 = P s" using "1.prems"(1,2) s1 by simp
  show ?case
  proof (cases "attempt \<le> retries")
    case False
    then show ?thesis by (subst setAttempts.simps) simp
  next
    case True
    show ?thesis
    proof (cases "svalue (selects ?s2 sel) = v")
      case T: True
      with True s2 show ?thesis by (subst setAttempts.simps) (simp add: Let_def)
    next
      case F: False
      from "1.IH" [OF True refl refl F "1.prems"]
      have "P (snd (setAttempts e sel v retries (attempt + 1) (sleep 500 ?s2)))
            = P (sleep 500 ?s2)" .
      also have "\<dots> = P s" using s2 "1.prems"(2) by simp
      finally show ?thesis using True F by (subst setAttempts.simps) (simp add: Let_def)
    qed
  qed
qed

lemma setSelectValueVerified_soptions:
  "soptions (selects (snd (setSelectValueVerified e sel v s)) r) = soptions (selects s r)"
  unfolding setSelectValueVerified_def
  by (rule setAttempts_frame) (simp_all add: applySet_def sleep_def send_def)

lemma setSelectValueVerified_refused:
  assumes "\<forall>t. \<not> accepts e sel v t"
  shows "selects (snd (setSelectValueVerified e sel v s)) = selects s"
  unfolding setSelectValueVerified_def
  using assms by (intro setAttempts_frame) (simp_all add: applySet_def sleep_def send_def)

lemma selects_clickSubTab [simp]: "selects (snd (clickSubTab e i s)) = selects s"
  by (simp add: clickSubTab_def click_def)

lemma pidLoop_returns:
  assumes na: "abortAt e = None"
      and fit: "\<forall>t. int (fst (layout e t)) - int (snd (layout e t)) \<le> 100"
  shows "\<exists>s'. pidLoop e folder pfx sel n ps s = Some (Ok () s')
            \<and> (\<forall>r. r \<noteq> sel \<longrightarrow> selects s' r = selects s r)
            \<and> soptions (selects s' sel) = soptions (selects s sel)
            \<and> (ps \<noteq> [] \<and> (\<forall>t. accepts e sel (soptions (selects s sel) ! last ps) t)
                 \<longrightarrow> svalue (selects s' sel) = soptions (selects s sel) ! last ps)"
proof (induction ps arbitrary: s)
  case Nil
  show ?case by simp
next
  case (Cons p ps)
  let ?s1 = "setStatus (''PID Profile '' @ String (p + 1) @ ''/'' @ String n @ ''...'') s"
  let ?v = "soptions (selects s sel) ! p"
  let ?t = "snd (setSelectValueVerified e sel ?v ?s1)"
  let ?s3 = "sleep 800 (snd (clickSubTab e 0 (sleep 2500 ?t)))"
  let ?name = "pfx @ ''_PID_Profile'' @ String (p + 1)"
  from captureAndSave_fits [OF fit, of folder ?name ?s3]
  obtain s4 where cap: "captureAndSave e folder ?name ?s3 = Some (Ok () s4)"
    and f4: "selects s4 = selects ?t" by auto
  have step: "pidLoop e folder pfx sel n (p # ps) s = pidLoop e folder pfx sel n ps s4"
    using na cap by (simp add: checkAbort_simps Let_def)
  have other: "\<forall>r. r \<noteq> sel \<longrightarrow> selects s4 r = selects s r"
    using f4 by (simp add: setSelectValueVerified_other)
  have opts: "soptions (selects s4 sel) = soptions (selects s sel)"
    using f4 by (simp add: setSelectValueVerified_soptions)
  from Cons.IH [of s4] obtain s' where
    run: "pidLoop e folder pfx sel n ps s4 = Some (Ok () s')"
    and o': "\<forall>r. r \<noteq> sel \<longrightarrow> selects s' r = selects s4 r"
    and p': "soptions (selects s' sel) = soptions (selects s4 sel)"
    and v': "ps \<noteq> [] \<and> (\<forall>t. accepts e sel (soptions (selects s4 sel) ! last ps) t)
                 \<longrightarrow> svalue (selects s' sel) = soptions (selects s4 sel) ! last ps"
    by blast
  have val: "(\<forall>t. accepts e sel (soptions (selects s sel) ! last (p # ps)) t)
             \<longrightarrow> svalue (selects s' sel) = soptions (selects s sel) ! last (p # ps)"
  proof (cases "ps = []")
    case True
    with run have "s' = s4" by simp
    with True f4 show ?thesis by (simp add: setSelectValueVerified_accepted)
  next
    case False
    with v' opts show ?thesis by simp
  qed
  from step run other o' opts p' val show ?case by simp
qed

lemma rateLoop_returns:
  assumes na: "abortAt e = None"
      and fit: "\<forall>t. int (fst (layout e t)) - int (snd (layout e t)) \<le> 100"
  shows "\<exists>s'. rateLoop e folder pfx sel n rs s = Some (Ok () s')
            \<and> (\<forall>r. r \<noteq> sel \<longrightarrow> selects s' r = selects s r)"
proof (induction rs arbitrary: s)
  case Nil
  show ?case by simp
next
  case (Cons p rs)
  let ?s1 = "setStatus (''Rate Profile '' @ String (p + 1) @ ''/'' @ String n @ ''...'') s"
  let ?v = "soptions (selects s sel) ! p"
  let ?t = "snd (setSelectValueVerified e sel ?v ?s1)"
  let ?s3 = "sleep 800 (snd (clickSubTab e 1 (sleep 2500 ?t)))"
  let ?name = "pfx @ ''_Rates_Profile'' @ String (p + 1)"
  from captureAndSave_fits [OF fit, of folder ?name ?s3]
  obtain s4 where cap: "captureAndSave e folder ?name ?s3 = Some (Ok () s4)"
    and f4: "selects s4 = selects ?t" by auto
  have step: "rateLoop e folder pfx sel n (p # rs) s = rateLoop e folder pfx sel n rs s4"
    using na cap by (simp add: checkAbort_simps Let_def)
  have other: "\<forall>r. r \<noteq> sel \<longrightarrow> selects s4 r = selects s r"
    using f4 by (simp add: setSelectValueVerified_other)
  from Cons.IH [of s4] obtain s' where
    run: "rateLoop e folder pfx sel n rs s4 = Some (Ok () s')"
    and o': "\<forall>r. r \<noteq> sel \<longrightarrow> selects s' r = selects s4 r"
    by blast
  from step run other o' show ?case by simp
qed

lemma restoreProfiles_refused:
  assumes ref: "\<forall>t. \<not> accepts e pidSel originalPid t"
      and dist: "rateSel \<noteq> Some pidSel"
  shows "selects (restoreProfiles e pidSel originalPid rateSel originalRate s) pidSel
         = selects s pidSel"
proof -
  let ?s2 = "sleep 1000 (snd (setSelectValueVerified e pidSel originalPid
                                (setStatus ''Restoring original profiles...'' s)))"
  have s2: "selects ?s2 = selects s"
    by (simp add: setSelectValueVerified_refused [OF ref])
  show ?thesis
  proof (cases rateSel)
    case None
    then show ?thesis using s2 by (simp add: restoreProfiles_def Let_def)
  next
    case (Some r)
    with dist have "pidSel \<noteq> r" by auto
    then have "\<And>v. selects (snd (setSelectValueVerified e r v ?s2)) pidSel = selects ?s2 pidSel"
      by (rule setSelectValueVerified_other)
    with Some s2 show ?thesis
      by (cases originalRate) (simp_all add: restoreProfiles_def Let_def)
  qed
qed

text \<open>On a page that needs no scrolling, with no stop request, the unit returns normally
  whatever the device does with the switches, and it reaches the restore block with the PID
  select on the last profile of the cycle if the device took that switch.\<close>

lemma handlePidTuningTab_returns:
  assumes na: "abortAt e = None"
      and fit: "\<forall>t. int (fst (layout e t)) - int (snd (layout e t)) \<le> 100"
      and pid: "pidSelect e = Some pidSel"
      and many: "1 < length (soptions (selects s pidSel))"
      and dist: "rateSelect e \<noteq> Some pidSel"
  shows "\<exists>s3. handlePidTuningTab e folder pfx s
               = Some (Ok () (restoreProfiles e pidSel (svalue (selects s pidSel)) (rateSelect e)
                               (map_option (\<lambda>r. svalue (selects s r)) (rateSelect e)) s3))
            \<and> ((\<forall>t. accepts e pidSel (last (soptions (selects s pidSel))) t)
                 \<longrightarrow> svalue (selects s3 pidSel) = last (soptions (selects s pidSel)))"
proof -
  let ?n = "length (soptions (selects s pidSel))"
  let ?rc = "case rateSelect e of Some r \<Rightarrow> length (soptions (selects s r)) | None \<Rightarrow> 0"
  let ?sub = "length (subTabs e (clock s))"
  have lastn: "soptions (selects s pidSel) ! last [0..<?n] = last (soptions (selects s pidSel))"
    using many by (cases "soptions (selects s pidSel)" rule: rev_cases) simp_all
  have ne: "[0..<?n] \<noteq> []" using many by auto
  from pidLoop_returns [OF na fit, of folder pfx pidSel ?n "[0..<?n]" s] ne lastn
  obtain s1 where
    p1: "pidLoop e folder pfx pidSel ?n [0..<?n] s = Some (Ok () s1)"
    and v1: "(\<forall>t. accepts e pidSel (last (soptions (selects s pidSel))) t)
             \<longrightarrow> svalue (selects s1 pidSel) = last (soptions (selects s pidSel))"
    by auto
  have "\<exists>s2. (if 1 < ?sub then
                 (if rateSelect e \<noteq> None \<and> 1 < ?rc then
                    rateLoop e folder pfx (the (rateSelect e)) ?rc [0..<?rc] s1
                  else captureAndSave e folder (pfx @ ''_Rates'')
                         (sleep 800 (snd (clickSubTab e 1 s1))))
               else Some (Ok () s1)) = Some (Ok () s2)
             \<and> selects s2 pidSel = selects s1 pidSel"
  proof (cases "1 < ?sub")
    case False
    then show ?thesis by simp
  next
    case True
    show ?thesis
    proof (cases "rateSelect e \<noteq> None \<and> 1 < ?rc")
      case rl: True
      then have "the (rateSelect e) \<noteq> pidSel" using dist by auto
      with rateLoop_returns [OF na fit, of folder pfx "the (rateSelect e)" ?rc "[0..<?rc]" s1]
        True rl show ?thesis by auto
    next
      case False
      with captureAndSave_fits [OF fit, of folder "pfx @ ''_Rates''"
             "sleep 800 (snd (clickSubTab e 1 s1))"] True
      show ?thesis by auto
    qed
  qed
  then obtain s2 where
    p2: "(if 1 < ?sub then
            (if rateSelect e \<noteq> None \<and> 1 < ?rc then
               rateLoop e folder pfx (the (rateSelect e)) ?rc [0..<?rc] s1
             else captureAndSave e folder (pfx @ ''_Rates'')
                    (sleep 800 (snd (clickSubTab e 1 s1))))
          else Some (Ok () s1)) = Some (Ok () s2)"
    and f2: "selects s2 pidSel = selects s1 pidSel" by blast
  have "\<exists>s3. (if 2 < ?sub then
                 captureAndSave e folder (pfx @ ''_Filter'')
                   (sleep 800 (snd (clickSubTab e 2 (setStatus ''Filter settings...'' s2))))
               else Some (Ok () s2)) = Some (Ok () s3)
             \<and> selects s3 = selects s2"
    using captureAndSave_fits [OF fit, of folder "pfx @ ''_Filter''"
            "sleep 800 (snd (clickSubTab e 2 (setStatus ''Filter settings...'' s2)))"]
    by auto
  then obtain s3 where
    p3: "(if 2 < ?sub then
            captureAndSave e folder (pfx @ ''_Filter'')
              (sleep 800 (snd (clickSubTab e 2 (setStatus ''Filter settings...'' s2))))
          else Some (Ok () s2)) = Some (Ok () s3)"
    and f3: "selects s3 = selects s2" by blast
  have "handlePidTuningTab e folder pfx s
        = bindR (pidLoop e folder pfx pidSel ?n [0..<?n] s)
            (\<lambda>_ s1.
          bindR (if 1 < ?sub then
                   (if rateSelect e \<noteq> None \<and> 1 < ?rc then
                      rateLoop e folder pfx (the (rateSelect e)) ?rc [0..<?rc] s1
                    else captureAndSave e folder (pfx @ ''_Rates'')
                           (sleep 800 (snd (clickSubTab e 1 s1))))
                 else Some (Ok () s1))
            (\<lambda>_ s2.
          bindR (if 2 < ?sub then
                   captureAndSave e folder (pfx @ ''_Filter'')
                     (sleep 800 (snd (clickSubTab e 2 (setStatus ''Filter settings...'' s2))))
                 else Some (Ok () s2))
            (\<lambda>_ s3.
          Some (Ok () (restoreProfiles e pidSel (svalue (selects s pidSel)) (rateSelect e)
                         (map_option (\<lambda>r. svalue (selects s r)) (rateSelect e)) s3)))))"
    unfolding handlePidTuningTab_def Let_def
    using pid many by simp
  also have "\<dots> = Some (Ok () (restoreProfiles e pidSel (svalue (selects s pidSel)) (rateSelect e)
                        (map_option (\<lambda>r. svalue (selects s r)) (rateSelect e)) s3))"
    by (simp only: p1 p2 p3 bindR_simps)
  finally have "handlePidTuningTab e folder pfx s
        = Some (Ok () (restoreProfiles e pidSel (svalue (selects s pidSel)) (rateSelect e)
                        (map_option (\<lambda>r. svalue (selects s r)) (rateSelect e)) s3))" .
  with v1 f2 f3 show ?thesis by auto
qed



lemma bindR_weak_cong: "m = m' \<Longrightarrow> bindR m f = bindR m' f"
  by simp

text \<open>What a stop request in the middle of the cycle does: \<open>checkAbort\<close> throws at the top
  of the second iteration, the exception leaves \<open>handlePidTuningTab\<close> at once, and the
  PID select stays on the first profile although the second was active at the start. The
  restore block is not reached.\<close>

lemma abort_skips_restore:
  "svalue (selects stateCycle 0) = ''1''
   \<and> (case handlePidTuningTab envAbort ''04_PID_Tuning'' ''04'' stateCycle of
         Some (Threw msg s') \<Rightarrow>
           msg = ''Backup stopped by user.'' \<and> svalue (selects s' 0) = ''0''
           \<and> SetStatus ''Restoring original profiles...'' \<lparr>current = 0, total = 0\<rparr>
               \<notin> set (outbox s')
       | _ \<Rightarrow> False)"
  by (simp add: handlePidTuningTab_def pidLoop.simps setSelectValueVerified_def
        setAttempts.simps applySet_def clickSubTab_def captureAndSave_def requestScreenshot_def
        enforceInterval_def captureAttempts.simps attemptResult_def MIN_CAPTURE_INTERVAL_def
        checkAbort_def abortRequested_def state_defs String.simps digit_def
        envAbort_def envCycle_def env0_def stateCycle_def state0_def Let_def
      cong: bindR_weak_cong let_weak_cong)


section \<open>Properties of the quiescence wait\<close>


lemma waitInv_bound: "waitInv L k lastLen stableCnt \<Longrightarrow> 1 \<le> j \<Longrightarrow> j \<le> k \<Longrightarrow> L j \<le> lastLen"
  by (simp add: waitInv_def)

lemma waitInv_grow:
  assumes "waitInv L k lastLen stableCnt" "lastLen < L (Suc k)"
  shows "waitInv L (Suc k) (L (Suc k)) 0"
proof -
  have "\<forall>j \<in> {1..k}. L j \<le> L (Suc k)"
  proof
    fix j assume "j \<in> {1..k}"
    then have "L j \<le> lastLen" using waitInv_bound [OF assms(1), of j] by simp
    with assms(2) show "L j \<le> L (Suc k)" by simp
  qed
  then have "\<forall>j \<in> {1..Suc k}. L j \<le> L (Suc k)"
    by (auto simp: le_Suc_eq)
  moreover have "Suc k \<in> {1..Suc k}" by simp
  ultimately show ?thesis using assms(2)
    unfolding waitInv_def by (auto intro!: bexI [of _ "Suc k"])
qed

lemma waitInv_empty:
  assumes "waitInv L k lastLen stableCnt" "L (Suc k) = 0"
  shows "waitInv L (Suc k) lastLen stableCnt"
proof -
  from assms have bound: "\<forall>j \<in> {1..Suc k}. L j \<le> lastLen"
    by (auto simp: waitInv_def le_Suc_eq)
  show ?thesis
  proof (cases "lastLen = 0")
    case True
    with assms bound show ?thesis by (simp add: waitInv_def)
  next
    case False
    with assms(1) obtain i where i: "i \<in> {1..k}" "L i = lastLen"
      "if stableCnt = 0 then \<forall>j \<in> {i<..k}. L j = 0
       else \<exists>m \<in> {i<..k}. 0 < L m \<and> (\<forall>j \<in> {i<..k}. j \<noteq> m \<longrightarrow> L j = 0)"
      and st: "stableCnt < 2"
      by (auto simp: waitInv_def)
    have "if stableCnt = 0 then \<forall>j \<in> {i<..Suc k}. L j = 0
       else \<exists>m \<in> {i<..Suc k}. 0 < L m \<and> (\<forall>j \<in> {i<..Suc k}. j \<noteq> m \<longrightarrow> L j = 0)"
    proof (cases "stableCnt = 0")
      case True
      with i(3) assms(2) show ?thesis by (auto simp: le_Suc_eq)
    next
      case F: False
      with i(3) obtain m where m: "m \<in> {i<..k}" "0 < L m" "\<forall>j \<in> {i<..k}. j \<noteq> m \<longrightarrow> L j = 0"
        by auto
      have "m \<in> {i<..Suc k}" using m(1) by simp
      moreover have "\<forall>j \<in> {i<..Suc k}. j \<noteq> m \<longrightarrow> L j = 0"
        using m(3) assms(2) by (auto simp: le_Suc_eq)
      ultimately show ?thesis using F m(2) by auto
    qed
    moreover have "i \<in> {1..Suc k}" using i(1) by simp
    ultimately show ?thesis using False bound st i(2)
      unfolding waitInv_def by auto
  qed
qed

lemma waitInv_first_stable:
  assumes "waitInv L k lastLen 0" "L (Suc k) \<le> lastLen" "0 < L (Suc k)"
  shows "waitInv L (Suc k) lastLen 1"
proof -
  from assms have bound: "\<forall>j \<in> {1..Suc k}. L j \<le> lastLen"
    by (auto simp: waitInv_def le_Suc_eq)
  from assms have pos: "lastLen \<noteq> 0" by simp
  with assms(1) obtain i where i: "i \<in> {1..k}" "L i = lastLen" "\<forall>j \<in> {i<..k}. L j = 0"
    by (auto simp: waitInv_def)
  have "Suc k \<in> {i<..Suc k}" using i(1) by simp
  moreover have "\<forall>j \<in> {i<..Suc k}. j \<noteq> Suc k \<longrightarrow> L j = 0"
    using i(3) by (auto simp: le_Suc_eq)
  ultimately have "\<exists>m \<in> {i<..Suc k}. 0 < L m \<and> (\<forall>j \<in> {i<..Suc k}. j \<noteq> m \<longrightarrow> L j = 0)"
    using assms(3) by blast
  moreover have "i \<in> {1..Suc k}" using i(1) by simp
  ultimately show ?thesis using pos bound i(2)
    unfolding waitInv_def by auto
qed

lemma waitInv_second_stable:
  assumes "waitInv L k lastLen stableCnt" "stableCnt \<noteq> 0" "L (Suc k) \<le> lastLen" "0 < L (Suc k)"
  shows "quiescentAt L (Suc k)"
proof -
  from assms have bound: "\<forall>j \<in> {1..Suc k}. L j \<le> lastLen"
    by (auto simp: waitInv_def le_Suc_eq)
  from assms have pos: "lastLen \<noteq> 0" by simp
  with assms(1,2) obtain i m where i: "i \<in> {1..k}" "L i = lastLen"
     and m: "m \<in> {i<..k}" "0 < L m" "\<forall>j \<in> {i<..k}. j \<noteq> m \<longrightarrow> L j = 0"
    by (auto simp: waitInv_def)
  have mb: "L m \<le> L i" using bound m(1) i by auto
  have "i \<in> {1..<Suc k}" using i(1) by auto
  moreover have "m \<in> {i<..<Suc k}" using m(1) by auto
  moreover have "\<forall>j \<in> {1..Suc k}. L j \<le> L i" using bound i(2) by simp
  moreover have "\<forall>j \<in> {i<..<Suc k}. j \<noteq> m \<longrightarrow> L j = 0" using m(3) by auto
  ultimately show ?thesis
    unfolding quiescentAt_def using m(2) mb assms(3,4) i(2) by blast
qed


lemma waitPost_step:
  assumes "waitPost e start maxMs (Suc k) (sleep 1000 s) r" "clock s = start + 1000 * k"
      and "1000 * k < maxMs"
  shows "waitPost e start maxMs k s r"
proof (cases r)
  case (Ok out s')
  show ?thesis
  proof (cases out)
    case Stable
    with Ok assms(1) obtain n where "n > Suc k" "s' = (sleep 1000 s)\<lparr>clock := start + 1000 * n\<rparr>"
      "1000 * (n - 1) < maxMs" "quiescentAt (pollLen e start) n"
      by (auto simp: waitPost_def)
    then have "n > k \<and> s' = s\<lparr>clock := start + 1000 * n\<rparr> \<and> 1000 * (n - 1) < maxMs
               \<and> quiescentAt (pollLen e start) n"
      by (simp add: sleep_def)
    then show ?thesis using Ok Stable unfolding waitPost_def by auto
  next
    case TimedOut
    with Ok assms(1) obtain n where "n \<ge> Suc k" "s' = (sleep 1000 s)\<lparr>clock := start + 1000 * n\<rparr>"
      "maxMs \<le> 1000 * n" "Suc k < n \<longrightarrow> 1000 * (n - 1) < maxMs"
      by (auto simp: waitPost_def)
    then have "n \<ge> k \<and> s' = s\<lparr>clock := start + 1000 * n\<rparr> \<and> maxMs \<le> 1000 * n
               \<and> (k < n \<longrightarrow> 1000 * (n - 1) < maxMs)"
      using assms(3) by (cases "n = Suc k") (auto simp: sleep_def)
    then show ?thesis using Ok TimedOut unfolding waitPost_def by auto
  qed
next
  case (Threw msg s')
  with assms(1) obtain n where "msg = ''Backup stopped by user.''" "abortRequested e s'"
     "n \<ge> Suc k" "s' = (sleep 1000 s)\<lparr>clock := start + 1000 * n\<rparr>" "1000 * (n - 1) < maxMs"
    by (auto simp: waitPost_def)
  then have "msg = ''Backup stopped by user.'' \<and> abortRequested e s'
             \<and> n \<ge> k \<and> s' = s\<lparr>clock := start + 1000 * n\<rparr> \<and> 1000 * (n - 1) < maxMs"
    by (simp add: sleep_def)
  then show ?thesis using Threw unfolding waitPost_def by auto
qed

lemma cliWaitLoop_char:
  "clock s = start + 1000 * k \<Longrightarrow> waitInv (pollLen e start) k lastLen stableCnt \<Longrightarrow>
   (k = 0 \<or> 1000 * (k - 1) < maxMs) \<Longrightarrow>
   waitPost e start maxMs k s (cliWaitLoop e start maxMs lastLen stableCnt s)"
proof (induction e start maxMs lastLen stableCnt s arbitrary: k rule: cliWaitLoop.induct)
  case (1 e start maxMs lastLen stableCnt s)
  let ?L = "pollLen e start"
  let ?s1 = "sleep 1000 s"
  let ?len = "length (cliRead e ?s1)"
  note clk = "1.prems"(1) and inv = "1.prems"(2)
  have len: "?len = ?L (Suc k)"
    using clk by (simp add: cliRead_def pollLen_def sleep_def add.commute add.left_commute)
  have clk1: "clock ?s1 = start + 1000 * Suc k"
    using clk by (simp add: sleep_def)
  have s_eq: "s = s\<lparr>clock := start + 1000 * k\<rparr>"
    using clk by simp
  have s1_eq: "?s1 = s\<lparr>clock := start + 1000 * Suc k\<rparr>"
    using clk by (simp add: sleep_def)
  show ?case
  proof (cases "int (clock s) - int start < int maxMs")
    case False
    then have res: "cliWaitLoop e start maxMs lastLen stableCnt s = Ok TimedOut s"
      by (simp add: cliWaitLoop.simps)
    from False clk have "maxMs \<le> 1000 * k" by simp
    with s_eq show ?thesis
      unfolding res waitPost_def by (auto intro!: exI [of _ k])
  next
    case cond: True
    then have lt: "1000 * k < maxMs" using clk by simp
    show ?thesis
    proof (cases "abortRequested e s")
      case True
      then have res: "cliWaitLoop e start maxMs lastLen stableCnt s
                      = Threw ''Backup stopped by user.'' s"
        using cond by (simp add: cliWaitLoop.simps checkAbort_def)
      from lt have "1000 * (k - 1) < maxMs" by simp
      with s_eq True show ?thesis
        unfolding res waitPost_def by (auto intro!: exI [of _ k])
    next
      case na: False
      then have chk: "checkAbort e s = Ok () s" by (simp add: checkAbort_def)
      show ?thesis
      proof (cases "abortRequested e ?s1")
        case True
        then have res: "cliWaitLoop e start maxMs lastLen stableCnt s
                        = Threw ''Backup stopped by user.'' ?s1"
          using cond na by (simp add: cliWaitLoop.simps checkAbort_def Let_def)
        from s1_eq True lt show ?thesis
          unfolding res waitPost_def by (auto intro!: exI [of _ "Suc k"])
      next
        case na1: False
        then have chk1: "checkAbort e ?s1 = Ok () ?s1" by (simp add: checkAbort_def)
        have bound: "Suc k = 0 \<or> 1000 * (Suc k - 1) < maxMs" using lt by simp
        show ?thesis
        proof (cases "lastLen < ?len")
          case grow: True
          then have res: "cliWaitLoop e start maxMs lastLen stableCnt s
                          = cliWaitLoop e start maxMs ?len 0 ?s1"
            using cond chk chk1
            by (subst cliWaitLoop.simps) (simp add: Let_def)
          have "waitInv ?L (Suc k) ?len 0"
            using waitInv_grow [OF inv] grow len by simp
          from "1.IH"(1) [OF cond chk refl chk1 refl refl grow clk1 this bound]
          show ?thesis unfolding res using clk lt by (rule waitPost_step)
        next
          case ng: False
          show ?thesis
          proof (cases "0 < ?len")
            case pos: True
            show ?thesis
            proof (cases "2 \<le> stableCnt + 1")
              case True
              then have res: "cliWaitLoop e start maxMs lastLen stableCnt s = Ok Stable ?s1"
                using cond chk chk1 ng pos
                by (subst cliWaitLoop.simps) (simp add: Let_def)
              from True have "stableCnt \<noteq> 0" by simp
              from waitInv_second_stable [OF inv this] ng pos len
              have "quiescentAt ?L (Suc k)" by simp
              with s1_eq lt show ?thesis
                unfolding res waitPost_def by (auto intro!: exI [of _ "Suc k"])
            next
              case False
              then have st0: "stableCnt = 0" by simp
              have res: "cliWaitLoop e start maxMs lastLen stableCnt s
                          = cliWaitLoop e start maxMs lastLen (stableCnt + 1) ?s1"
                using cond chk chk1 ng pos False
                by (subst cliWaitLoop.simps) (simp add: Let_def)
              have "waitInv ?L (Suc k) lastLen (stableCnt + 1)"
                using waitInv_first_stable [of ?L k lastLen] inv st0 ng pos len by simp
              from "1.IH"(2) [OF cond chk refl chk1 refl refl ng pos False clk1 this bound]
              show ?thesis unfolding res using clk lt by (rule waitPost_step)
            qed
          next
            case zero: False
            have res: "cliWaitLoop e start maxMs lastLen stableCnt s
                        = cliWaitLoop e start maxMs lastLen stableCnt ?s1"
              using cond chk chk1 ng zero
              by (subst cliWaitLoop.simps) (simp add: Let_def)
            have "waitInv ?L (Suc k) lastLen stableCnt"
              using waitInv_empty [OF inv] zero len by simp
            from "1.IH"(3) [OF cond chk refl chk1 refl refl ng zero clk1 this bound]
            show ?thesis unfolding res using clk lt by (rule waitPost_step)
          qed
        qed
      qed
    qed
  qed
qed


lemma cliWait_post:
  "waitPost e (clock s) maxMs 0 s (cliWaitForStableOutput e maxMs s)"
  unfolding cliWaitForStableOutput_def
  by (rule cliWaitLoop_char) (simp_all add: waitInv_def)

lemma quiescentAt_mono:
  assumes q: "quiescentAt L n" and mono: "\<forall>j. L j \<le> L (Suc j)"
  shows "unchangedTwice L n"
proof -
  have le: "\<And>a b. a \<le> b \<Longrightarrow> L a \<le> L b"
    using mono by (simp add: lift_Suc_mono_le)
  from q obtain i m where i: "1 \<le> i" "i < m" "m < n"
    and m: "0 < L m" "L m \<le> L i" and n: "0 < L n" "L n \<le> L i"
    and z: "\<forall>j \<in> {i<..<n}. j \<noteq> m \<longrightarrow> L j = 0"
    unfolding quiescentAt_def by auto
  have Li: "0 < L i" using le [of i m] i m by simp
  have pos: "\<And>j. i \<le> j \<Longrightarrow> 0 < L j"
  proof -
    fix j assume "i \<le> j"
    from le [OF this] Li show "0 < L j" by simp
  qed
  have "m = Suc i"
  proof (rule ccontr)
    assume "m \<noteq> Suc i"
    with i have "Suc i \<in> {i<..<n}" "Suc i \<noteq> m" by auto
    with z have "L (Suc i) = 0" by blast
    with pos [of "Suc i"] show False by simp
  qed
  moreover have "n = Suc m"
  proof (rule ccontr)
    assume "n \<noteq> Suc m"
    with i have "Suc m \<in> {i<..<n}" "Suc m \<noteq> m" by auto
    with z have "L (Suc m) = 0" by blast
    with pos [of "Suc m"] i show False by simp
  qed
  moreover have "L i \<le> L m" using le i by simp
  moreover have "L m \<le> L n" using le i by simp
  ultimately show ?thesis using i m n by (simp add: unchangedTwice_def)
qed

lemma quiescentAt_not_increasing:
  assumes q: "quiescentAt L n" and inc: "\<forall>j\<ge>1. L j < L (Suc j)"
  shows False
proof -
  from q obtain i m where i: "1 \<le> i" "i < m" and m: "L m \<le> L i"
    unfolding quiescentAt_def by auto
  have "\<And>d. L i < L (Suc (i + d))"
  proof -
    fix d show "L i < L (Suc (i + d))"
    proof (induction d)
      case 0
      from inc i(1) show ?case by simp
    next
      case (Suc d)
      from inc i(1) have "L (Suc (i + d)) < L (Suc (Suc (i + d)))" by simp
      with Suc show ?case by simp
    qed
  qed
  from this [of "m - Suc i"] i(2) have "L i < L m" by simp
  with m show False by simp
qed

text \<open>C6, amended: the wait polls the terminal once per second. It declares the output
  stable only at a poll \<open>n\<close> such that, after the poll \<open>i\<close> with the greatest length read
  so far, exactly two polls (\<open>m\<close> and \<open>n\<close>) read a non-empty text, neither longer than
  poll \<open>i\<close>, and every other poll after \<open>i\<close> read nothing; when the length never
  decreases from poll to poll, these are the three consecutive polls \<open>n - 2\<close>,
  \<open>n - 1\<close>, \<open>n\<close> with one and the same non-empty length. For an output whose length
  strictly increases at every poll, stability is never declared. When \<open>maxMs\<close> elapses
  first, the wait returns normally (the second return point), and without a user abort
  the wait never throws.\<close>

theorem C6_quiescence_amended:
  "(\<forall>s'. cliWaitForStableOutput e maxMs s = Ok Stable s' \<longrightarrow>
      (\<exists>n. s' = s\<lparr>clock := clock s + 1000 * n\<rparr> \<and> 1000 * (n - 1) < maxMs
           \<and> quiescentAt (pollLen e (clock s)) n
           \<and> ((\<forall>j. pollLen e (clock s) j \<le> pollLen e (clock s) (Suc j)) \<longrightarrow>
                unchangedTwice (pollLen e (clock s)) n)))
   \<and> ((\<forall>j\<ge>1. pollLen e (clock s) j < pollLen e (clock s) (Suc j)) \<longrightarrow>
        (\<forall>s'. cliWaitForStableOutput e maxMs s \<noteq> Ok Stable s'))
   \<and> (\<forall>s'. cliWaitForStableOutput e maxMs s = Ok TimedOut s' \<longrightarrow>
        (\<exists>n. s' = s\<lparr>clock := clock s + 1000 * n\<rparr> \<and> maxMs \<le> 1000 * n
             \<and> (0 < n \<longrightarrow> 1000 * (n - 1) < maxMs)))
   \<and> (abortAt e = None \<longrightarrow> (\<exists>out s'. cliWaitForStableOutput e maxMs s = Ok out s'))"
proof -
  let ?r = "cliWaitForStableOutput e maxMs s"
  let ?L = "pollLen e (clock s)"
  have post: "waitPost e (clock s) maxMs 0 s ?r" by (rule cliWait_post)
  have stable: "\<And>s'. ?r = Ok Stable s' \<Longrightarrow>
      \<exists>n. s' = s\<lparr>clock := clock s + 1000 * n\<rparr> \<and> 1000 * (n - 1) < maxMs \<and> quiescentAt ?L n"
    using post by (auto simp: waitPost_def)
  have a: "\<forall>s'. ?r = Ok Stable s' \<longrightarrow>
      (\<exists>n. s' = s\<lparr>clock := clock s + 1000 * n\<rparr> \<and> 1000 * (n - 1) < maxMs
           \<and> quiescentAt ?L n
           \<and> ((\<forall>j. ?L j \<le> ?L (Suc j)) \<longrightarrow> unchangedTwice ?L n))"
  proof (intro allI impI)
    fix s' assume "?r = Ok Stable s'"
    from stable [OF this] obtain n where n: "s' = s\<lparr>clock := clock s + 1000 * n\<rparr>"
      "1000 * (n - 1) < maxMs" "quiescentAt ?L n" by blast
    from quiescentAt_mono [OF n(3)]
    have "(\<forall>j. ?L j \<le> ?L (Suc j)) \<longrightarrow> unchangedTwice ?L n"
      by blast
    with n show "\<exists>n. s' = s\<lparr>clock := clock s + 1000 * n\<rparr> \<and> 1000 * (n - 1) < maxMs
           \<and> quiescentAt ?L n
           \<and> ((\<forall>j. ?L j \<le> ?L (Suc j)) \<longrightarrow> unchangedTwice ?L n)"
      by blast
  qed
  have b: "(\<forall>j\<ge>1. ?L j < ?L (Suc j)) \<longrightarrow> (\<forall>s'. ?r \<noteq> Ok Stable s')"
    using stable quiescentAt_not_increasing [of ?L] by blast
  have c: "\<forall>s'. ?r = Ok TimedOut s' \<longrightarrow>
        (\<exists>n. s' = s\<lparr>clock := clock s + 1000 * n\<rparr> \<and> maxMs \<le> 1000 * n
             \<and> (0 < n \<longrightarrow> 1000 * (n - 1) < maxMs))"
    using post by (auto simp: waitPost_def)
  have d: "abortAt e = None \<longrightarrow> (\<exists>out s'. ?r = Ok out s')"
  proof
    assume none: "abortAt e = None"
    show "\<exists>out s'. ?r = Ok out s'"
    proof (cases ?r)
      case (Ok out s')
      then show ?thesis by blast
    next
      case (Threw msg s')
      with post have "abortRequested e s'" by (simp add: waitPost_def)
      with none show ?thesis by (simp add: abortRequested_def)
    qed
  qed
  from a b c d show ?thesis by (intro conjI)
qed


theorem C6_quiescence_amended_witness:
  "cliWaitForStableOutput envSettling 30000 state0 = Ok Stable (state0\<lparr>clock := 4000\<rparr>)
   \<and> unchangedTwice (pollLen envSettling (clock state0)) 4
   \<and> pollLen envSettling (clock state0) 2 = 21
   \<and> cliWaitForStableOutput envGrowing 3000 state0 = Ok TimedOut (state0\<lparr>clock := 3000\<rparr>)
   \<and> abortAt envGrowing = None"
proof -
  have settle: "cliWaitForStableOutput envSettling 30000 state0 = Ok Stable (state0\<lparr>clock := 4000\<rparr>)"
    by (simp add: cliWaitForStableOutput_def cliWaitLoop.simps checkAbort_def abortRequested_def
          envSettling_def env0_def state0_def sleep_def cliRead_def Let_def)
  have mono: "\<forall>j. pollLen envSettling (clock state0) j \<le> pollLen envSettling (clock state0) (Suc j)"
    by (simp add: pollLen_def envSettling_def env0_def state0_def)
  have len2: "pollLen envSettling (clock state0) 2 = 21"
    by (simp add: pollLen_def envSettling_def env0_def state0_def)
  have inc: "\<forall>j\<ge>1. pollLen envGrowing (clock state0) j < pollLen envGrowing (clock state0) (Suc j)"
    by (simp add: pollLen_def envGrowing_def env0_def state0_def)
  have timeout: "cliWaitForStableOutput envGrowing 3000 state0 = Ok TimedOut (state0\<lparr>clock := 3000\<rparr>)"
    by (simp add: cliWaitForStableOutput_def cliWaitLoop.simps checkAbort_def abortRequested_def
          envGrowing_def env0_def state0_def sleep_def cliRead_def Let_def)
  have none: "abortAt envGrowing = None"
    by (simp add: envGrowing_def env0_def)
  from C6_quiescence_amended [of envSettling 30000 state0] settle mono
  obtain n where n: "state0\<lparr>clock := 4000\<rparr> = state0\<lparr>clock := clock state0 + 1000 * n\<rparr>"
     "unchangedTwice (pollLen envSettling (clock state0)) n"
    by blast
  from n(1) have "clock (state0\<lparr>clock := 4000\<rparr>) = clock (state0\<lparr>clock := clock state0 + 1000 * n\<rparr>)"
    by (rule arg_cong)
  then have "n = 4" by (simp add: state0_def)
  with n(2) have "unchangedTwice (pollLen envSettling (clock state0)) 4" by simp
  moreover from C6_quiescence_amended [of envGrowing 3000 state0] inc timeout
  have "cliWaitForStableOutput envGrowing 3000 state0 \<noteq> Ok Stable (state0\<lparr>clock := 3000\<rparr>)"
    by simp
  ultimately show ?thesis using settle len2 timeout none by blast
qed

text \<open>C6, as stated, fails: the terminal text shrinks from 10 to 7 to 3 characters, so
  its length changes at every poll, and the wait declares the output stable at the third
  poll: each of the later two polls is non-empty and not longer than the first.\<close>

theorem C6_counterexample:
  "cliWaitForStableOutput envShrinking 30000 state0 = Ok Stable (state0\<lparr>clock := 3000\<rparr>)
   \<and> \<not> unchangedTwice (pollLen envShrinking (clock state0)) 3
   \<and> pollLen envShrinking (clock state0) 1 = 10
   \<and> pollLen envShrinking (clock state0) 2 = 7
   \<and> pollLen envShrinking (clock state0) 3 = 3"
proof -
  have "cliWaitForStableOutput envShrinking 30000 state0 = Ok Stable (state0\<lparr>clock := 3000\<rparr>)"
    by (simp add: cliWaitForStableOutput_def cliWaitLoop.simps checkAbort_def abortRequested_def
          envShrinking_def env0_def state0_def sleep_def cliRead_def Let_def)
  moreover have "pollLen envShrinking (clock state0) 1 = 10
     \<and> pollLen envShrinking (clock state0) 2 = 7
     \<and> pollLen envShrinking (clock state0) 3 = 3"
    by (simp add: pollLen_def envShrinking_def env0_def state0_def)
  moreover have "\<not> unchangedTwice (pollLen envShrinking (clock state0)) 3"
    by (simp add: unchangedTwice_def pollLen_def envShrinking_def env0_def state0_def)
  ultimately show ?thesis by blast
qed

section \<open>Properties of the CLI tab: the noise threshold\<close>

lemma length_trim_le: "length (trim str) \<le> length str"
proof -
  have "length (dropWhile isWhiteSpace (rev (dropWhile isWhiteSpace str)))
        \<le> length (rev (dropWhile isWhiteSpace str))"
    by (rule length_dropWhile_le)
  also have "\<dots> = length (dropWhile isWhiteSpace str)"
    by simp
  also have "\<dots> \<le> length str"
    by (rule length_dropWhile_le)
  finally show ?thesis by (simp add: trim_def)
qed

lemma cliPersist_saved:
  "10 < length (trim output) \<Longrightarrow>
   outbox (cliPersist cmd file output s)
     = outbox s @ [SaveFile ''CLI'' file output False,
                   SetStatus (quoted cmd @ '' saved ('' @ toFixedKB (length output) @ '' KB).'')
                     (progressState s)]"
  by (auto simp: cliPersist_def state_defs trim_def)

lemma cliPersist_discarded:
  "length (trim output) \<le> 10 \<Longrightarrow>
   cliPersist cmd file output s = setStatus (''WARNING: No output for '' @ quoted cmd @ ''.'') s"
  by (simp add: cliPersist_def)

lemma cliWait_no_abort:
  "abortAt e = None \<Longrightarrow> \<exists>out s'. cliWaitForStableOutput e maxMs s = Ok out s'"
proof (cases "cliWaitForStableOutput e maxMs s")
  case (Ok out s')
  then show ?thesis by blast
next
  case (Threw msg s')
  assume none: "abortAt e = None"
  from cliWait_post [of e s maxMs] Threw have "abortRequested e s'"
    by (simp add: waitPost_def)
  with none show ?thesis by (simp add: abortRequested_def)
qed

lemma cliCommand_reaches_persist:
  assumes "abortAt e = None" "\<forall>t. isConnected (connDom e t) \<noteq> Some False"
      and "cliSendOk e (clock (sleep 500 (cliClear e s)))"
  shows "\<exists>s5. cliCommand e (cmd, file, timeout) s
               = Ok () (sleep 1000 (cliPersist cmd file (cliRead e s5) s5))"
proof -
  let ?s3 = "snd (cliSend e cmd (setStatus (''CLI: '' @ cmd @ ''...'') (sleep 500 (cliClear e s))))"
  let ?s4 = "setStatus (''Waiting for '' @ quoted cmd @ '' response...'') ?s3"
  from cliWait_no_abort [OF assms(1), of timeout ?s4]
  obtain out s5 where w: "cliWaitForStableOutput e timeout ?s4 = Ok out s5" by blast
  have sent: "fst (cliSend e cmd (setStatus (''CLI: '' @ cmd @ ''...'') (sleep 500 (cliClear e s))))"
    using assms(3) by (simp add: cliSend_def state_defs)
  have "cliCommand e (cmd, file, timeout) s
        = Ok () (sleep 1000 (cliPersist cmd file (cliRead e s5) s5))"
    using assms(1,2) sent w by (simp add: checkAbort_simps Let_def)
  then show ?thesis by blast
qed

text \<open>C9: the text read after a command is saved only if it is longer than 10
  characters (the code compares the length of the trimmed text, which is at most the
  length of the text). A text of at most 10 characters is not saved: the only message
  sent is the status \<open>WARNING: No output for '<cmd>'.\<close> Either way the step returns
  normally: unless the user aborts or the connection is lost, the command step ends in
  \<open>cliPersist\<close> followed by the pause, and the loop goes on with the next command.\<close>

theorem C9_cli_noise_threshold:
  "(length output \<le> 10 \<longrightarrow>
      cliPersist cmd file output s = setStatus (''WARNING: No output for '' @ quoted cmd @ ''.'') s
      \<and> outbox (cliPersist cmd file output s)
          = outbox s @ [SetStatus (''WARNING: No output for '' @ quoted cmd @ ''.'') (progressState s)])
   \<and> (SaveFile ''CLI'' file output False \<in> set (outbox (cliPersist cmd file output s))
        \<and> SaveFile ''CLI'' file output False \<notin> set (outbox s) \<longrightarrow> 10 < length output)
   \<and> (10 < length (trim output) \<longrightarrow>
        outbox (cliPersist cmd file output s)
          = outbox s @ [SaveFile ''CLI'' file output False,
                        SetStatus (quoted cmd @ '' saved ('' @ toFixedKB (length output) @ '' KB).'')
                          (progressState s)])
   \<and> (abortAt e = None \<and> (\<forall>t. isConnected (connDom e t) \<noteq> Some False)
        \<and> cliSendOk e (clock (sleep 500 (cliClear e s))) \<longrightarrow>
        (\<exists>s5. cliCommand e (cmd, file, timeout) s
                = Ok () (sleep 1000 (cliPersist cmd file (cliRead e s5) s5))))
   \<and> (\<forall>s'. cliCommand e c s = Ok () s' \<longrightarrow> cliCommands e (c # cs) s = cliCommands e cs s')"
proof -
  have a: "length output \<le> 10 \<longrightarrow>
      cliPersist cmd file output s = setStatus (''WARNING: No output for '' @ quoted cmd @ ''.'') s
      \<and> outbox (cliPersist cmd file output s)
          = outbox s @ [SetStatus (''WARNING: No output for '' @ quoted cmd @ ''.'') (progressState s)]"
  proof
    assume "length output \<le> 10"
    with length_trim_le [of "output"] have "length (trim output) \<le> 10" by simp
    from cliPersist_discarded [OF this, of cmd "file" s]
    show "cliPersist cmd file output s = setStatus (''WARNING: No output for '' @ quoted cmd @ ''.'') s
      \<and> outbox (cliPersist cmd file output s)
          = outbox s @ [SetStatus (''WARNING: No output for '' @ quoted cmd @ ''.'') (progressState s)]"
      by (simp add: state_defs)
  qed
  have b: "SaveFile ''CLI'' file output False \<in> set (outbox (cliPersist cmd file output s))
        \<and> SaveFile ''CLI'' file output False \<notin> set (outbox s) \<longrightarrow> 10 < length output"
  proof (intro impI, elim conjE)
    assume inn: "SaveFile ''CLI'' file output False \<in> set (outbox (cliPersist cmd file output s))"
       and out: "SaveFile ''CLI'' file output False \<notin> set (outbox s)"
    show "10 < length output"
    proof (rule ccontr)
      assume "\<not> 10 < length output"
      then have "length output \<le> 10" by simp
      with a have "outbox (cliPersist cmd file output s)
          = outbox s @ [SetStatus (''WARNING: No output for '' @ quoted cmd @ ''.'') (progressState s)]"
        by blast
      with inn out show False by simp
    qed
  qed
  have c: "10 < length (trim output) \<longrightarrow>
        outbox (cliPersist cmd file output s)
          = outbox s @ [SaveFile ''CLI'' file output False,
                        SetStatus (quoted cmd @ '' saved ('' @ toFixedKB (length output) @ '' KB).'')
                          (progressState s)]"
    using cliPersist_saved by blast
  have d: "abortAt e = None \<and> (\<forall>t. isConnected (connDom e t) \<noteq> Some False)
        \<and> cliSendOk e (clock (sleep 500 (cliClear e s))) \<longrightarrow>
        (\<exists>s5. cliCommand e (cmd, file, timeout) s
                = Ok () (sleep 1000 (cliPersist cmd file (cliRead e s5) s5)))"
    using cliCommand_reaches_persist by blast
  have e: "\<forall>s'. cliCommand e c s = Ok () s' \<longrightarrow> cliCommands e (c # cs) s = cliCommands e cs s'"
    by simp
  from a b c d e show ?thesis by (intro conjI)
qed

theorem C9_cli_noise_threshold_witness:
  "length ''# '' \<le> 10
   \<and> outbox (cliPersist ''diff all'' ''diff_all.txt'' ''# '' state0)
       = [SetStatus (''WARNING: No output for '' @ quoted ''diff all'' @ ''.'')
            \<lparr>current = 0, total = 0\<rparr>]
   \<and> 10 < length (trim ''set gyro_lpf1 = 250'')
   \<and> outbox (cliPersist ''diff all'' ''diff_all.txt'' ''set gyro_lpf1 = 250'' state0)
       = [SaveFile ''CLI'' ''diff_all.txt'' ''set gyro_lpf1 = 250'' False,
          SetStatus (quoted ''diff all'' @ '' saved (''
                       @ toFixedKB (length ''set gyro_lpf1 = 250'') @ '' KB).'')
            \<lparr>current = 0, total = 0\<rparr>]
   \<and> (\<exists>s'. cliCommand env0 (''diff all'', ''diff_all.txt'', 3000) state0 = Ok () s'
          \<and> cliCommands env0 [(''diff all'', ''diff_all.txt'', 3000),
                               (''dump all'', ''dump_all.txt'', 3000)] state0
             = cliCommands env0 [(''dump all'', ''dump_all.txt'', 3000)] s')"
proof -
  have short: "length ''# '' \<le> 10" by simp
  have long: "10 < length (trim ''set gyro_lpf1 = 250'')"
    by (simp add: trim_def isWhiteSpace_def)
  have st: "outbox state0 = [] \<and> progressState state0 = \<lparr>current = 0, total = 0\<rparr>"
    by (simp add: state0_def)
  have pre: "abortAt env0 = None \<and> (\<forall>t. isConnected (connDom env0 t) \<noteq> Some False)
             \<and> cliSendOk env0 (clock (sleep 500 (cliClear env0 state0)))"
    by (simp add: env0_def isConnected_def connectedDom_def)
  from C9_cli_noise_threshold [of "''# ''" "''diff all''" "''diff_all.txt''" state0] short st
  have a: "outbox (cliPersist ''diff all'' ''diff_all.txt'' ''# '' state0)
       = [SetStatus (''WARNING: No output for '' @ quoted ''diff all'' @ ''.'')
            \<lparr>current = 0, total = 0\<rparr>]"
    by (simp add: state_defs)
  from C9_cli_noise_threshold [of "''set gyro_lpf1 = 250''" "''diff all''" "''diff_all.txt''" state0]
       long st
  have b: "outbox (cliPersist ''diff all'' ''diff_all.txt'' ''set gyro_lpf1 = 250'' state0)
       = [SaveFile ''CLI'' ''diff_all.txt'' ''set gyro_lpf1 = 250'' False,
          SetStatus (quoted ''diff all'' @ '' saved (''
                       @ toFixedKB (length ''set gyro_lpf1 = 250'') @ '' KB).'')
            \<lparr>current = 0, total = 0\<rparr>]"
    by (simp add: state_defs)
  from C9_cli_noise_threshold [of _ "''diff all''" "''diff_all.txt''" state0 env0 3000
         "(''diff all'', ''diff_all.txt'', 3000)" "[(''dump all'', ''dump_all.txt'', 3000)]"] pre
  have c: "\<exists>s'. cliCommand env0 (''diff all'', ''diff_all.txt'', 3000) state0 = Ok () s'
          \<and> cliCommands env0 [(''diff all'', ''diff_all.txt'', 3000),
                               (''dump all'', ''dump_all.txt'', 3000)] state0
             = cliCommands env0 [(''dump all'', ''dump_all.txt'', 3000)] s'"
    by blast
  from short long a b c show ?thesis by blast
qed

section \<open>Properties of the panel loop: the connectivity probe\<close>

lemma isConnected_False_iff:
  "isConnected d = Some False
   \<longleftrightarrow> bemBtn d = Some False \<or> (bemBtn d = None \<and> classicBtn d = Some False)"
  by (auto simp: isConnected_def split: option.splits)

lemma isConnected_None_iff:
  "isConnected d = None
   \<longleftrightarrow> bemBtn d = None \<and> classicBtn d = None \<and> \<not> indicator d \<and> (\<forall>h \<in> set (navTabs d). h = 0)"
  by (auto simp: isConnected_def list_ex_iff split: option.splits)

lemma tabLoop_disconnected:
  "\<not> abortRequested e s \<Longrightarrow> isConnected (connDom e (clock s)) = Some False \<Longrightarrow>
   tabLoop e opts n (t # ts) idx s = Some (Threw ''Connection lost - backup aborted.'' s)"
  by (simp add: checkAbort_simps)

lemma tabLoop_visits:
  assumes "\<not> abortRequested e s" "isConnected (connDom e (clock s)) \<noteq> Some False"
      and "cls t \<noteq> []" "hasLink e (cls t) (clock s)"
  shows "tabLoop e opts n (t # ts) idx s =
     bindR (dispatch e opts t (padStart2 (String idx) @ ''_'' @ englishNameOf (cls t))
              (padStart2 (String idx)) (englishNameOf (cls t))
              (sleep 3500 (click (TabLink (cls t))
                 (setStatus (''Tab '' @ String idx @ ''/'' @ String n @ '': '' @ label t)
                    (setProgress idx n s)))))
       (\<lambda>_ s3. tabLoop e opts n ts (idx + 1) s3)"
  using assms by (simp add: checkAbort_simps Let_def state_defs)

text \<open>C7: at the top of every iteration of the panel loop, before the panel is
  touched, \<open>isConnected\<close> is evaluated. If it returns \<open>false\<close> the loop throws
  \<open>Connection lost\<close> in the state it was entered in: neither this panel nor any later
  one is clicked, captured or reported. If it returns \<open>null\<close> (no indicator found) the
  loop goes on to navigate to the panel and dispatch it. The probe returns \<open>false\<close>
  exactly when the first connect button it finds lacks the class \<open>active\<close>, and \<open>null\<close>
  exactly when it finds no button, no indicator and no visible navigation item.\<close>

theorem C7_connection_check:
  "(\<not> abortRequested e s \<and> isConnected (connDom e (clock s)) = Some False \<longrightarrow>
      tabLoop e opts n (t # ts) idx s = Some (Threw ''Connection lost - backup aborted.'' s))
   \<and> (\<not> abortRequested e s \<and> isConnected (connDom e (clock s)) = None
        \<and> cls t \<noteq> [] \<and> hasLink e (cls t) (clock s) \<longrightarrow>
      tabLoop e opts n (t # ts) idx s =
        bindR (dispatch e opts t (padStart2 (String idx) @ ''_'' @ englishNameOf (cls t))
                 (padStart2 (String idx)) (englishNameOf (cls t))
                 (sleep 3500 (click (TabLink (cls t))
                    (setStatus (''Tab '' @ String idx @ ''/'' @ String n @ '': '' @ label t)
                       (setProgress idx n s)))))
          (\<lambda>_ s3. tabLoop e opts n ts (idx + 1) s3))
   \<and> (isConnected d = Some False
        \<longleftrightarrow> bemBtn d = Some False \<or> (bemBtn d = None \<and> classicBtn d = Some False))
   \<and> (isConnected d = None
        \<longleftrightarrow> bemBtn d = None \<and> classicBtn d = None \<and> \<not> indicator d
            \<and> (\<forall>h \<in> set (navTabs d). h = 0))"
proof -
  have a: "\<not> abortRequested e s \<and> isConnected (connDom e (clock s)) = Some False \<longrightarrow>
      tabLoop e opts n (t # ts) idx s = Some (Threw ''Connection lost - backup aborted.'' s)"
    using tabLoop_disconnected by blast
  have b: "\<not> abortRequested e s \<and> isConnected (connDom e (clock s)) = None
        \<and> cls t \<noteq> [] \<and> hasLink e (cls t) (clock s) \<longrightarrow>
      tabLoop e opts n (t # ts) idx s =
        bindR (dispatch e opts t (padStart2 (String idx) @ ''_'' @ englishNameOf (cls t))
                 (padStart2 (String idx)) (englishNameOf (cls t))
                 (sleep 3500 (click (TabLink (cls t))
                    (setStatus (''Tab '' @ String idx @ ''/'' @ String n @ '': '' @ label t)
                       (setProgress idx n s)))))
          (\<lambda>_ s3. tabLoop e opts n ts (idx + 1) s3)"
  proof (intro impI, elim conjE)
    assume "\<not> abortRequested e s" "isConnected (connDom e (clock s)) = None"
           "cls t \<noteq> []" "hasLink e (cls t) (clock s)"
    then show "tabLoop e opts n (t # ts) idx s =
        bindR (dispatch e opts t (padStart2 (String idx) @ ''_'' @ englishNameOf (cls t))
                 (padStart2 (String idx)) (englishNameOf (cls t))
                 (sleep 3500 (click (TabLink (cls t))
                    (setStatus (''Tab '' @ String idx @ ''/'' @ String n @ '': '' @ label t)
                       (setProgress idx n s)))))
          (\<lambda>_ s3. tabLoop e opts n ts (idx + 1) s3)"
      by (intro tabLoop_visits) simp_all
  qed
  from a b isConnected_False_iff [of d] isConnected_None_iff [of d] show ?thesis
    by (intro conjI)
qed

theorem C7_connection_check_witness:
  "isConnected lostDom = Some False \<and> isConnected unknownDom = None
   \<and> tabLoop envLost defaultOptions 2 [tabSetup, tabPorts] 1 state0
       = Some (Threw ''Connection lost - backup aborted.'' state0)
   \<and> tabLoop envUnknown defaultOptions 2 [tabSetup, tabPorts] 1 state0
       = bindR (dispatch envUnknown defaultOptions tabSetup
                  (padStart2 (String 1) @ ''_'' @ englishNameOf (cls tabSetup))
                  (padStart2 (String 1)) (englishNameOf (cls tabSetup))
                  (sleep 3500 (click (TabLink (cls tabSetup))
                     (setStatus (''Tab '' @ String 1 @ ''/'' @ String 2 @ '': '' @ label tabSetup)
                        (setProgress 1 2 state0)))))
           (\<lambda>_ s3. tabLoop envUnknown defaultOptions 2 [tabPorts] (1 + 1) s3)"
proof -
  have lost: "isConnected lostDom = Some False"
    by (simp add: isConnected_def lostDom_def)
  have unknown: "isConnected unknownDom = None"
    by (simp add: isConnected_def unknownDom_def)
  have h1: "\<not> abortRequested envLost state0
            \<and> isConnected (connDom envLost (clock state0)) = Some False"
    using lost by (simp add: abortRequested_def envLost_def env0_def)
  have h2: "\<not> abortRequested envUnknown state0
            \<and> isConnected (connDom envUnknown (clock state0)) = None
            \<and> cls tabSetup \<noteq> [] \<and> hasLink envUnknown (cls tabSetup) (clock state0)"
    using unknown by (simp add: abortRequested_def envUnknown_def env0_def tabSetup_def)
  from h1 C7_connection_check [of envLost state0 defaultOptions 2 tabSetup "[tabPorts]" 1 lostDom]
  have a: "tabLoop envLost defaultOptions 2 [tabSetup, tabPorts] 1 state0
           = Some (Threw ''Connection lost - backup aborted.'' state0)"
    by blast
  from h2 C7_connection_check [of envUnknown state0 defaultOptions 2 tabSetup "[tabPorts]" 1 unknownDom]
  have b: "tabLoop envUnknown defaultOptions 2 [tabSetup, tabPorts] 1 state0
       = bindR (dispatch envUnknown defaultOptions tabSetup
                  (padStart2 (String 1) @ ''_'' @ englishNameOf (cls tabSetup))
                  (padStart2 (String 1)) (englishNameOf (cls tabSetup))
                  (sleep 3500 (click (TabLink (cls tabSetup))
                     (setStatus (''Tab '' @ String 1 @ ''/'' @ String 2 @ '': '' @ label tabSetup)
                        (setProgress 1 2 state0)))))
           (\<lambda>_ s3. tabLoop envUnknown defaultOptions 2 [tabPorts] (1 + 1) s3)"
    by blast
  from lost unknown a b show ?thesis by blast
qed

section \<open>Properties of the worker and of the listener: one run at a time\<close>

lemma updateStatus_fields [simp]:
  "isRunning (updateStatus a m w) = isRunning w"
  "backupZip (updateStatus a m w) = backupZip w"
  "activeTabId (updateStatus a m w) = activeTabId w"
  "tabOutbox (updateStatus a m w) = tabOutbox w"
  "rootFolderName (updateStatus a m w) = rootFolderName w"
  by (simp_all add: updateStatus_def)

lemma setBadge_fields [simp]:
  "isRunning (setBadge t c w) = isRunning w"
  "backupZip (setBadge t c w) = backupZip w"
  "activeTabId (setBadge t c w) = activeTabId w"
  "tabOutbox (setBadge t c w) = tabOutbox w"
  by (simp_all add: setBadge_def)

lemma handleStartBackup_running:
  "isRunning w \<Longrightarrow>
   handleStartBackup tabId opts ts w = updateStatus ''backupError'' ''Backup is already running.'' w"
  by (simp add: handleStartBackup_def)

lemma contentStep_invariant:
  "(active = (if backupRunning c then 1 else 0)) \<Longrightarrow>
   snd (contentStep (c, active) ev) = (if backupRunning (fst (contentStep (c, active) ev)) then 1 else 0)"
  by (cases ev) (auto simp: onMessage_def runFinished_def split: request.splits)

lemma contentRun_simps [simp]:
  "contentRun st [] = st"
  "contentRun st (ev # evs) = contentRun (contentStep st ev) evs"
  by (simp_all add: contentRun_def)

lemma contentRun_invariant:
  "(active = (if backupRunning c then 1 else 0)) \<Longrightarrow>
   snd (contentRun (c, active) evs) = (if backupRunning (fst (contentRun (c, active) evs)) then 1 else 0)"
proof (induction evs arbitrary: c active)
  case Nil
  then show ?case by simp
next
  case (Cons ev evs)
  obtain c' active' where step: "contentStep (c, active) ev = (c', active')"
    by (cases "contentStep (c, active) ev")
  with contentStep_invariant [OF Cons.prems, of ev]
  have "active' = (if backupRunning c' then 1 else 0)" by simp
  from Cons.IH [OF this] step show ?case by simp
qed

lemma sysRun_simps [simp]:
  "sysRun sy [] = sy"
  "sysRun sy (ev # evs) = sysRun (sysStep sy ev) evs"
  by (simp_all add: sysRun_def)

lemma sysStep_invariant:
  assumes "\<forall>tabId. snd (scripts sy tabId) = (if backupRunning (fst (scripts sy tabId)) then 1 else 0)"
  shows "\<forall>tabId. snd (scripts (sysStep sy ev) tabId)
                  = (if backupRunning (fst (scripts (sysStep sy ev) tabId)) then 1 else 0)"
proof
  fix tabId
  have step: "\<And>t ev'. snd (contentStep (scripts sy t) ev')
                = (if backupRunning (fst (contentStep (scripts sy t) ev')) then 1 else 0)"
  proof -
    fix t ev'
    obtain c active where ca: "scripts sy t = (c, active)" by (cases "scripts sy t")
    with assms have "active = (if backupRunning c then 1 else 0)"
      by (metis fst_conv snd_conv)
    from contentStep_invariant [OF this, of ev'] ca show
      "snd (contentStep (scripts sy t) ev')
       = (if backupRunning (fst (contentStep (scripts sy t) ev')) then 1 else 0)"
      by simp
  qed
  show "snd (scripts (sysStep sy ev) tabId)
        = (if backupRunning (fst (scripts (sysStep sy ev) tabId)) then 1 else 0)"
  proof (cases ev)
    case (ToWorker req ts)
    with assms show ?thesis by simp
  next
    case Deliver
    show ?thesis
    proof (cases "delivered sy < length (tabOutbox (wk sy))")
      case False
      with Deliver assms show ?thesis by simp
    next
      case True
      show ?thesis
      proof (cases "tabId = fst (tabOutbox (wk sy) ! delivered sy)")
        case same: True
        with Deliver True step [of tabId] show ?thesis by (simp add: Let_def)
      next
        case other: False
        with Deliver True assms show ?thesis by (simp add: Let_def)
      qed
    qed
  next
    case (RunEndsIn t)
    show ?thesis
    proof (cases "tabId = t")
      case True
      with RunEndsIn step [of t RunEnds] show ?thesis by simp
    next
      case False
      with RunEndsIn assms show ?thesis by simp
    qed
  qed
qed

lemma sysRun_invariant:
  assumes "\<forall>tabId. snd (scripts sy tabId) = (if backupRunning (fst (scripts sy tabId)) then 1 else 0)"
  shows "\<forall>tabId. snd (scripts (sysRun sy evs) tabId)
                  = (if backupRunning (fst (scripts (sysRun sy evs) tabId)) then 1 else 0)"
  using assms
proof (induction evs arbitrary: sy)
  case Nil
  then show ?case by simp
next
  case (Cons ev evs)
  from Cons.IH [OF sysStep_invariant [OF Cons.prems, of ev]] show ?case by simp
qed

lemma onCommand_running: "isRunning w \<Longrightarrow> onCommand command tab bo sel ts w = w"
  by (simp add: onCommand_def)




text \<open>C10: a \<open>saveFile\<close> request that finds no archive is answered with
  \<open>success: false\<close> and leaves the worker's state as it was; stopping a running backup
  discards the archive, so every \<open>saveFile\<close> that follows the stop is dropped.\<close>

theorem C10_saveFile_without_archive:
  "(backupZip w = None \<longrightarrow>
      workerOnMessage (SaveFileReq folderName fileName content isBase64) ts w
        = (w, Some (SaveResult False (Some ''No active backup''))))
   \<and> (isRunning w \<and> activeTabId w = Some tabId \<and> tabId \<noteq> 0 \<longrightarrow>
      backupZip (fst (workerOnMessage StopBackup ts w)) = None
      \<and> workerOnMessage (SaveFileReq folderName fileName content isBase64) ts'
           (fst (workerOnMessage StopBackup ts w))
         = (fst (workerOnMessage StopBackup ts w),
            Some (SaveResult False (Some ''No active backup''))))"
proof -
  have save: "\<And>v. backupZip v = None \<Longrightarrow>
      workerOnMessage (SaveFileReq folderName fileName content isBase64) ts' v
        = (v, Some (SaveResult False (Some ''No active backup'')))"
    by (simp add: workerOnMessage_def)
  have stop: "isRunning w \<and> activeTabId w = Some tabId \<and> tabId \<noteq> 0 \<Longrightarrow>
      backupZip (fst (workerOnMessage StopBackup ts w)) = None"
    by (simp add: workerOnMessage_def Let_def)
  have "backupZip w = None \<longrightarrow>
      workerOnMessage (SaveFileReq folderName fileName content isBase64) ts w
        = (w, Some (SaveResult False (Some ''No active backup'')))"
    by (simp add: workerOnMessage_def)
  with save stop show ?thesis by blast
qed

theorem C10_saveFile_without_archive_witness:
  "backupZip worker0 = None
   \<and> workerOnMessage (SaveFileReq ''01_Setup'' ''01_01_Setup.jpg'' ''data:image/jpeg;base64,AAAA'' True)
        ''2026-02-23_14-30'' worker0
      = (worker0, Some (SaveResult False (Some ''No active backup'')))
   \<and> backupZip workerRunning \<noteq> None
   \<and> backupZip (fst (workerOnMessage StopBackup ''2026-02-23_14-30'' workerRunning)) = None"
proof -
  have a: "backupZip worker0 = None" by (simp add: worker0_def)
  have b: "isRunning workerRunning \<and> activeTabId workerRunning = Some 7 \<and> (7::nat) \<noteq> 0"
    by (simp add: workerRunning_def handleStartBackup_def worker0_def updateStatus_def
                  setBadge_def)
  have c: "backupZip workerRunning \<noteq> None"
    by (simp add: workerRunning_def handleStartBackup_def worker0_def updateStatus_def
                  setBadge_def)
  from a b c
    C10_saveFile_without_archive [of worker0 "''01_Setup''" "''01_01_Setup.jpg''"
       "''data:image/jpeg;base64,AAAA''" True "''2026-02-23_14-30''"]
    C10_saveFile_without_archive [of workerRunning _ _ _ _ "''2026-02-23_14-30''" 7]
  show ?thesis by simp
qed

end
